theory Spec2Isabelle
  imports Main
begin

section \<open>Strings\<close>

text \<open>
  Source strings are modelled as \<open>string\<close> (lists of 8-bit characters). The model
  covers ASCII text: case mapping acts on the letters A-Z and a-z only, white space is
  the six ASCII white-space characters, and every character from 128 upwards is an
  ordinary character without case that is neither white space nor a word character.
\<close>

definition upperChars :: string where
  "upperChars = ''ABCDEFGHIJKLMNOPQRSTUVWXYZ''"

definition lowerChars :: string where
  "lowerChars = ''abcdefghijklmnopqrstuvwxyz''"

definition digitChars :: string where
  "digitChars = ''0123456789''"

definition toLowerChar :: "char \<Rightarrow> char" where
  "toLowerChar c = (case map_of (zip upperChars lowerChars) c of Some d \<Rightarrow> d | None \<Rightarrow> c)"

definition toUpperChar :: "char \<Rightarrow> char" where
  "toUpperChar c = (case map_of (zip lowerChars upperChars) c of Some d \<Rightarrow> d | None \<Rightarrow> c)"

definition toLowerCase :: "string \<Rightarrow> string" where
  "toLowerCase s = map toLowerChar s"

definition toUpperCase :: "string \<Rightarrow> string" where
  "toUpperCase s = map toUpperChar s"

text \<open>The characters matched by \<open>\s\<close> and removed by \<open>trim\<close>: tab, line feed, vertical tab,
  form feed, carriage return, space.\<close>

definition isSpace :: "char \<Rightarrow> bool" where
  "isSpace c = (c \<in> set [CHR 0x09, CHR 0x0A, CHR 0x0B, CHR 0x0C, CHR 0x0D, CHR '' ''])"

text \<open>The characters matched by \<open>\w\<close>.\<close>

definition isWord :: "char \<Rightarrow> bool" where
  "isWord c = (c \<in> set upperChars \<or> c \<in> set lowerChars \<or> c \<in> set digitChars \<or> c = CHR ''_'')"




definition startsWith :: "string \<Rightarrow> string \<Rightarrow> bool" where
  "startsWith s p = (take (length p) s = p)"

definition endsWith :: "string \<Rightarrow> string \<Rightarrow> bool" where
  "endsWith s p = (length p \<le> length s \<and> drop (length s - length p) s = p)"

text \<open>\<open>s.substring(a, b)\<close>: both indices are clamped to the length and swapped when
  \<open>a > b\<close>. \<open>s.substring(a)\<close> is \<open>substringFrom\<close>.\<close>

definition substring :: "string \<Rightarrow> nat \<Rightarrow> nat \<Rightarrow> string" where
  "substring s a b =
     (let lo = min (min a b) (length s); hi = min (max a b) (length s)
      in take (hi - lo) (drop lo s))"

definition substringFrom :: "string \<Rightarrow> nat \<Rightarrow> string" where
  "substringFrom s a = drop a s"

section \<open>Name matcher\<close>

text \<open>
  \<^verbatim>\<open>
  function getMatchName(name: string): string {
    let cleaned = name.toLowerCase();
    if (cleaned.startsWith('${') && cleaned.endsWith('}')) {
      cleaned = cleaned.substring(2, cleaned.length - 1);
    }
    return cleaned;
  }
  \<close>
\<close>

definition getMatchName :: "string \<Rightarrow> string" where
  "getMatchName name =
     (let cleaned = toLowerCase name
      in if startsWith cleaned ''${'' \<and> endsWith cleaned ''}''
         then substring cleaned 2 (length cleaned - 1)
         else cleaned)"

lemma toLowerCase_append: "toLowerCase (a @ b) = toLowerCase a @ toLowerCase b"
  by (simp add: toLowerCase_def)

lemma toLowerCase_wrapper:
  "toLowerCase ''${'' = ''${''" "toLowerCase ''}'' = ''}''"
  by (simp_all add: toLowerCase_def toLowerChar_def upperChars_def lowerChars_def)

lemma wrapped_iff:
  "(startsWith c ''${'' \<and> endsWith c ''}'') = (\<exists>body. c = ''${'' @ body @ ''}'')"
proof
  assume h: "startsWith c ''${'' \<and> endsWith c ''}''"
  then have p: "take (length ''${'') c = ''${''"
    and q: "drop (length c - length ''}'') c = ''}''" and l: "length ''}'' \<le> length c"
    by (simp_all only: startsWith_def endsWith_def)
  from p have c2: "c = ''${'' @ drop (length ''${'') c"
    by (metis append_take_drop_id)
  from q have c3: "c = take (length c - length ''}'') c @ ''}''"
    by (metis append_take_drop_id)
  define r where "r = drop (length ''${'') c"
  define t where "t = take (length c - length ''}'') c"
  have cr: "c = ''${'' @ r" and ct: "c = t @ ''}''"
    using c2 c3 by (simp_all only: r_def t_def)
  have "r \<noteq> []"
  proof
    assume "r = []"
    with cr ct show False by (cases t rule: rev_cases) auto
  qed
  then obtain body x where rb: "r = body @ [x]"
    by (cases r rule: rev_cases) auto
  with cr ct have "x = CHR ''}''" by (cases t rule: rev_cases) auto
  with rb cr have "c = ''${'' @ body @ ''}''" by simp
  then show "\<exists>body. c = ''${'' @ body @ ''}''" by blast
next
  assume "\<exists>body. c = ''${'' @ body @ ''}''"
  then show "startsWith c ''${'' \<and> endsWith c ''}''"
    by (auto simp: startsWith_def endsWith_def)
qed

lemma substring_wrapped:
  "substring (''${'' @ body @ ''}'') 2 (length (''${'' @ body @ ''}'') - 1) = body"
  by (simp add: substring_def Let_def min_def max_def)

lemma getMatchName_wrapped:
  "toLowerCase name = ''${'' @ body @ ''}'' \<Longrightarrow> getMatchName name = body"
  unfolding getMatchName_def Let_def
  using wrapped_iff [of "toLowerCase name"] substring_wrapped [of body] by auto

lemma getMatchName_plain:
  "\<not> (\<exists>body. toLowerCase name = ''${'' @ body @ ''}'') \<Longrightarrow> getMatchName name = toLowerCase name"
  unfolding getMatchName_def Let_def
  using wrapped_iff [of "toLowerCase name"] by auto

text \<open>
  Claim C9. The name-matching normalization gives the same key for \<open>${base_table}\<close>,
  \<open>base_table\<close> and \<open>BASE_TABLE\<close>. For every name it lowercases the string and, when the
  lowercased string has the form \<open>${body}\<close>, returns \<open>body\<close>; otherwise it returns the
  lowercased string. Hence wrapping a name in \<open>${...}\<close> gives the key of the lowercased
  name, which is the key of the name itself when the name is not a wrapped one.
\<close>

theorem getMatchName_matchKey:
  "getMatchName ''${base_table}'' = getMatchName ''base_table''
   \<and> getMatchName ''base_table'' = getMatchName ''BASE_TABLE''
   \<and> (\<forall>body. toLowerCase name = ''${'' @ body @ ''}'' \<longrightarrow> getMatchName name = body)
   \<and> ((\<nexists>body. toLowerCase name = ''${'' @ body @ ''}'') \<longrightarrow> getMatchName name = toLowerCase name)
   \<and> getMatchName (''${'' @ name @ ''}'') = toLowerCase name
   \<and> ((\<nexists>body. toLowerCase name = ''${'' @ body @ ''}'')
        \<longrightarrow> getMatchName (''${'' @ name @ ''}'') = getMatchName name)"
proof -
  have a: "getMatchName ''${base_table}'' = ''base_table''"
    by (simp add: getMatchName_def toLowerCase_def toLowerChar_def upperChars_def lowerChars_def
        startsWith_def endsWith_def substring_def)
  have b: "getMatchName ''base_table'' = ''base_table''"
    by (simp add: getMatchName_def toLowerCase_def toLowerChar_def upperChars_def lowerChars_def
        startsWith_def endsWith_def substring_def)
  have c: "getMatchName ''BASE_TABLE'' = ''base_table''"
    by (simp add: getMatchName_def toLowerCase_def toLowerChar_def upperChars_def lowerChars_def
        startsWith_def endsWith_def substring_def)
  have d: "toLowerCase (''${'' @ name @ ''}'') = ''${'' @ toLowerCase name @ ''}''"
    using toLowerCase_wrapper by (simp only: toLowerCase_append)
  have e: "getMatchName (''${'' @ name @ ''}'') = toLowerCase name"
    by (rule getMatchName_wrapped [OF d])
  show ?thesis
    using a b c e getMatchName_wrapped [of name] getMatchName_plain [of name] by simp
qed

theorem getMatchName_matchKey_witness:
  "toLowerCase ''${Base_Table}'' = ''${'' @ ''base_table'' @ ''}''
   \<and> getMatchName ''${Base_Table}'' = ''base_table''
   \<and> (\<nexists>body. toLowerCase ''Base_Table'' = ''${'' @ body @ ''}'')
   \<and> getMatchName ''Base_Table'' = toLowerCase ''Base_Table''
   \<and> getMatchName (''${'' @ ''Base_Table'' @ ''}'') = getMatchName ''Base_Table''"
proof -
  have l1: "toLowerCase ''${Base_Table}'' = ''${'' @ ''base_table'' @ ''}''"
    by (simp add: toLowerCase_def toLowerChar_def upperChars_def lowerChars_def)
  have l2: "toLowerCase ''Base_Table'' = ''base_table''"
    by (simp add: toLowerCase_def toLowerChar_def upperChars_def lowerChars_def)
  have n: "\<nexists>body. toLowerCase ''Base_Table'' = ''${'' @ body @ ''}''"
    by (simp add: l2)
  from getMatchName_matchKey [of "''${Base_Table}''"] l1
  have w1: "getMatchName ''${Base_Table}'' = ''base_table''" by blast
  from getMatchName_matchKey [of "''Base_Table''"] n
  have w2: "getMatchName ''Base_Table'' = toLowerCase ''Base_Table''"
    and w3: "getMatchName (''${'' @ ''Base_Table'' @ ''}'') = getMatchName ''Base_Table''"
    by blast+
  show ?thesis using l1 n w1 w2 w3 by blast
qed

section \<open>Regular expressions\<close>

text \<open>
  The source is written with JavaScript regular expressions. They are embedded as values
  of the type \<open>rx\<close> and run by a backtracking matcher with JavaScript's priorities: the
  matcher returns the list of all ways to match at a position, in the order in which a
  backtracking engine tries them (the first element is the match the engine reports).
  \<open>Star\<close> is the greedy \<open>r*\<close>, \<open>LazyStar\<close> is \<open>r*?\<close>; an iteration that consumes nothing is
  not repeated. \<open>Grp n r\<close> is the capturing group number \<open>n\<close>; \<open>Ahead\<close> and \<open>NotAhead\<close> are
  \<open>(?=r)\<close> and \<open>(?!r)\<close>; \<open>Eos\<close> is \<open>$\<close>, \<open>Eol\<close> is \<open>$\<close> under the flag \<open>m\<close>; \<open>WordB\<close> is \<open>\b\<close>.
  A leading \<open>^\<close> is expressed by matching at the start only (\<open>rmatchStart\<close>) instead of
  searching (\<open>rexec\<close>). The flag \<open>i\<close> is the first argument of the matcher. No expression of
  the source has a capturing group inside a repetition or a look-ahead.
\<close>

datatype citem = CChar char | CIn string | CSpace | CWord

datatype rx =
    Eps
  | Lit string
  | CSet "citem list"
  | CNot "citem list"
  | AnyChar
  | Dot
  | Seq rx rx
  | Alt rx rx
  | Star rx
  | LazyStar rx
  | Grp nat rx
  | Ahead rx
  | NotAhead rx
  | Eos
  | Eol
  | WordB

text \<open>A match state: the number of characters consumed so far, the character before the
  current position, the text still to be read, and the captured groups (latest first).\<close>

record mstate =
  mPos :: nat
  prevChar :: "char option"
  mRest :: string
  mCaps :: "(nat \<times> string) list"

definition bindList :: "'a list \<Rightarrow> ('a \<Rightarrow> 'b list) \<Rightarrow> 'b list" where
  "bindList xs f = concat (map f xs)"

lemma bindList_simps [simp]:
  "bindList [] f = []"
  "bindList (x # xs) f = f x @ bindList xs f"
  by (simp_all add: bindList_def)

lemma bindList_fcong [fundef_cong]:
  "xs = ys \<Longrightarrow> (\<And>x. x \<in> set ys \<Longrightarrow> f x = g x) \<Longrightarrow> bindList xs f = bindList ys g"
  by (simp add: bindList_def cong: map_cong)

lemma set_bindList: "set (bindList xs f) = (\<Union>x\<in>set xs. set (f x))"
  by (simp add: bindList_def)

definition charEq :: "bool \<Rightarrow> char \<Rightarrow> char \<Rightarrow> bool" where
  "charEq ic c d = (if ic then toLowerChar c = toLowerChar d else c = d)"

fun citemMatches :: "bool \<Rightarrow> char \<Rightarrow> citem \<Rightarrow> bool" where
  "citemMatches ic c (CChar d) = charEq ic c d"
| "citemMatches ic c (CIn ds) = list_ex (charEq ic c) ds"
| "citemMatches ic c CSpace = isSpace c"
| "citemMatches ic c CWord = isWord c"

definition classMatches :: "bool \<Rightarrow> citem list \<Rightarrow> char \<Rightarrow> bool" where
  "classMatches ic items c = list_ex (citemMatches ic c) items"

definition isLineTerminator :: "char \<Rightarrow> bool" where
  "isLineTerminator c = (c = CHR 0x0A \<or> c = CHR 0x0D)"

definition advance :: "mstate \<Rightarrow> mstate" where
  "advance st =
     (case mRest st of [] \<Rightarrow> st
      | c # cs \<Rightarrow> st\<lparr>mPos := Suc (mPos st), prevChar := Some c, mRest := cs\<rparr>)"

fun matchLit :: "bool \<Rightarrow> string \<Rightarrow> mstate \<Rightarrow> mstate list" where
  "matchLit ic [] st = [st]"
| "matchLit ic (d # ds) st =
     (case mRest st of [] \<Rightarrow> []
      | c # cs \<Rightarrow> if charEq ic c d then matchLit ic ds (advance st) else [])"

definition matchChar :: "(char \<Rightarrow> bool) \<Rightarrow> mstate \<Rightarrow> mstate list" where
  "matchChar p st = (case mRest st of [] \<Rightarrow> [] | c # cs \<Rightarrow> if p c then [advance st] else [])"

definition atWordBoundary :: "mstate \<Rightarrow> bool" where
  "atWordBoundary st =
     ((case prevChar st of None \<Rightarrow> False | Some c \<Rightarrow> isWord c)
      \<noteq> (case mRest st of [] \<Rightarrow> False | c # cs \<Rightarrow> isWord c))"

text \<open>Repetition. The second argument is the text still to be read when the repetition
  starts: every iteration consumes at least one character of it, so its length bounds
  the number of iterations.\<close>

fun iterGreedy :: "(mstate \<Rightarrow> mstate list) \<Rightarrow> string \<Rightarrow> mstate \<Rightarrow> mstate list" where
  "iterGreedy f [] st = [st]"
| "iterGreedy f (x # fuel) st =
     bindList (f st) (\<lambda>st'. if mPos st < mPos st' then iterGreedy f fuel st' else []) @ [st]"

fun iterLazy :: "(mstate \<Rightarrow> mstate list) \<Rightarrow> string \<Rightarrow> mstate \<Rightarrow> mstate list" where
  "iterLazy f [] st = [st]"
| "iterLazy f (x # fuel) st =
     st # bindList (f st) (\<lambda>st'. if mPos st < mPos st' then iterLazy f fuel st' else [])"

fun rmatch :: "bool \<Rightarrow> rx \<Rightarrow> mstate \<Rightarrow> mstate list" where
  "rmatch ic Eps st = [st]"
| "rmatch ic (Lit l) st = matchLit ic l st"
| "rmatch ic (CSet items) st = matchChar (classMatches ic items) st"
| "rmatch ic (CNot items) st = matchChar (\<lambda>c. \<not> classMatches ic items c) st"
| "rmatch ic AnyChar st = matchChar (\<lambda>c. True) st"
| "rmatch ic Dot st = matchChar (\<lambda>c. \<not> isLineTerminator c) st"
| "rmatch ic (Seq a b) st = bindList (rmatch ic a st) (\<lambda>st'. rmatch ic b st')"
| "rmatch ic (Alt a b) st = rmatch ic a st @ rmatch ic b st"
| "rmatch ic (Star r) st = iterGreedy (\<lambda>st'. rmatch ic r st') (mRest st) st"
| "rmatch ic (LazyStar r) st = iterLazy (\<lambda>st'. rmatch ic r st') (mRest st) st"
| "rmatch ic (Grp n r) st =
     map (\<lambda>st'. st'\<lparr>mCaps := (n, take (mPos st' - mPos st) (mRest st)) # mCaps st'\<rparr>) (rmatch ic r st)"
| "rmatch ic (Ahead r) st = (if rmatch ic r st = [] then [] else [st])"
| "rmatch ic (NotAhead r) st = (if rmatch ic r st = [] then [st] else [])"
| "rmatch ic Eos st = (if mRest st = [] then [st] else [])"
| "rmatch ic Eol st =
     (case mRest st of [] \<Rightarrow> [st] | c # cs \<Rightarrow> if isLineTerminator c then [st] else [])"
| "rmatch ic WordB st = (if atWordBoundary st then [st] else [])"

text \<open>What a successful match exposes: \<open>m.index\<close>, \<open>m[0]\<close>, the groups \<open>m[1]\<close>, \<open>m[2]\<close>, ...
  (absent when the group did not take part), and the state after the match, from which
  a global expression continues.\<close>

record rmatchResult =
  mIndex :: nat
  mText :: string
  mGroups :: "(nat \<times> string) list"
  mAfter :: mstate

definition mkResult :: "mstate \<Rightarrow> mstate \<Rightarrow> rmatchResult" where
  "mkResult st e =
     \<lparr>mIndex = mPos st, mText = take (mPos e - mPos st) (mRest st), mGroups = mCaps e, mAfter = e\<rparr>"

definition group :: "rmatchResult \<Rightarrow> nat \<Rightarrow> string option" where
  "group m n = map_of (mGroups m) n"

text \<open>\<open>m[n] || ''\<close>\<close>

definition groupOr :: "rmatchResult \<Rightarrow> nat \<Rightarrow> string" where
  "groupOr m n = (case group m n of None \<Rightarrow> [] | Some g \<Rightarrow> g)"

definition initState :: "string \<Rightarrow> mstate" where
  "initState s = \<lparr>mPos = 0, prevChar = None, mRest = s, mCaps = []\<rparr>"

text \<open>Matching at the current position only (an expression that starts with \<open>^\<close>).\<close>

definition rmatchHere :: "bool \<Rightarrow> rx \<Rightarrow> mstate \<Rightarrow> rmatchResult option" where
  "rmatchHere ic r st = (case rmatch ic r st of [] \<Rightarrow> None | e # _ \<Rightarrow> Some (mkResult st e))"

definition rmatchStart :: "bool \<Rightarrow> rx \<Rightarrow> string \<Rightarrow> rmatchResult option" where
  "rmatchStart ic r s = rmatchHere ic r (initState s)"

text \<open>Searching: the leftmost position, from the current one on, where the expression
  matches. The second argument is the text still to be read.\<close>

fun rsearch :: "bool \<Rightarrow> rx \<Rightarrow> string \<Rightarrow> mstate \<Rightarrow> rmatchResult option" where
  "rsearch ic r [] st = rmatchHere ic r st"
| "rsearch ic r (x # fuel) st =
     (case rmatchHere ic r st of
        None \<Rightarrow> rsearch ic r fuel (advance st)
      | Some m \<Rightarrow> Some m)"

definition rexecFrom :: "bool \<Rightarrow> rx \<Rightarrow> mstate \<Rightarrow> rmatchResult option" where
  "rexecFrom ic r st = rsearch ic r (mRest st) st"

text \<open>\<open>s.match(r)\<close> and \<open>r.exec(s)\<close> from index 0; \<open>r.test(s)\<close>.\<close>

definition rexec :: "bool \<Rightarrow> rx \<Rightarrow> string \<Rightarrow> rmatchResult option" where
  "rexec ic r s = rexecFrom ic r (initState s)"

definition rtest :: "bool \<Rightarrow> rx \<Rightarrow> string \<Rightarrow> bool" where
  "rtest ic r s = (rexec ic r s \<noteq> None)"

definition rtestStart :: "bool \<Rightarrow> rx \<Rightarrow> string \<Rightarrow> bool" where
  "rtestStart ic r s = (rmatchStart ic r s \<noteq> None)"



definition LazyPlus :: "rx \<Rightarrow> rx" where
  "LazyPlus r = Seq r (LazyStar r)"

definition Opt :: "rx \<Rightarrow> rx" where
  "Opt r = Alt r Eps"

fun alts :: "rx list \<Rightarrow> rx" where
  "alts [] = CSet []"
| "alts [r] = r"
| "alts (r # rs) = Alt r (alts rs)"


definition wd :: rx where
  "wd = CSet [CWord]"

text \<open>The matcher only moves forward: a state reached from \<open>st\<close> has consumed a prefix
  of the text that \<open>st\<close> still had to read.\<close>

definition extends :: "mstate \<Rightarrow> mstate \<Rightarrow> bool" where
  "extends st e = (\<exists>k. mRest st = k @ mRest e \<and> mPos e = mPos st + length k)"

lemma extends_refl: "extends st st"
  by (simp add: extends_def)

lemma extends_trans: "extends a b \<Longrightarrow> extends b c \<Longrightarrow> extends a c"
  unfolding extends_def by (metis append.assoc length_append add.assoc)

lemma extends_advance: "extends st (advance st)"
  by (cases "mRest st") (simp_all add: extends_def advance_def)

lemma extends_pos: "extends st e \<Longrightarrow> mPos st \<le> mPos e"
  by (auto simp: extends_def)

lemma extends_length: "extends st e \<Longrightarrow> length (mRest e) + (mPos e - mPos st) = length (mRest st)"
  by (auto simp: extends_def)

lemma extends_caps: "extends st e \<Longrightarrow> extends st (e\<lparr>mCaps := c\<rparr>)"
  by (simp add: extends_def)

lemma matchLit_extends: "e \<in> set (matchLit ic l st) \<Longrightarrow> extends st e \<and> mPos e = mPos st + length l"
proof (induction l arbitrary: st)
  case Nil
  then show ?case by (simp add: extends_refl)
next
  case (Cons d ds)
  show ?case
  proof (cases "mRest st")
    case Nil
    with Cons.prems show ?thesis by simp
  next
    case (Cons c cs)
    with Cons.prems have m: "e \<in> set (matchLit ic ds (advance st))"
      by (auto split: if_splits)
    from Cons.IH [OF m] have "extends (advance st) e" and "mPos e = mPos (advance st) + length ds"
      by simp_all
    moreover have "mPos (advance st) = Suc (mPos st)" using Cons by (simp add: advance_def)
    ultimately show ?thesis using extends_trans [OF extends_advance] by simp
  qed
qed

lemma pos_advance: "mRest st = c # cs \<Longrightarrow> mPos (advance st) = Suc (mPos st)"
  by (simp add: advance_def)

lemma matchChar_extends:
  assumes "e \<in> set (matchChar p st)"
  shows "extends st e \<and> mPos e = Suc (mPos st)"
proof (cases "mRest st")
  case Nil
  then show ?thesis using assms by (simp add: matchChar_def)
next
  case (Cons c cs)
  then show ?thesis
    using assms by (auto simp: matchChar_def extends_advance pos_advance split: if_splits)
qed

lemma iterGreedy_extends:
  assumes "\<And>a b. b \<in> set (f a) \<Longrightarrow> extends a b"
  shows "e \<in> set (iterGreedy f fuel st) \<Longrightarrow> extends st e"
proof (induction fuel arbitrary: st)
  case Nil
  then show ?case by (simp add: extends_refl)
next
  case (Cons x fuel)
  then show ?case
    using assms by (auto simp: set_bindList extends_refl split: if_splits intro: extends_trans)
qed

lemma iterLazy_extends:
  assumes "\<And>a b. b \<in> set (f a) \<Longrightarrow> extends a b"
  shows "e \<in> set (iterLazy f fuel st) \<Longrightarrow> extends st e"
proof (induction fuel arbitrary: st)
  case Nil
  then show ?case by (simp add: extends_refl)
next
  case (Cons x fuel)
  then show ?case
    using assms by (auto simp: set_bindList extends_refl split: if_splits intro: extends_trans)
qed

lemma rmatch_extends: "e \<in> set (rmatch ic r st) \<Longrightarrow> extends st e"
proof (induction r arbitrary: st e)
  case (Seq a b)
  from Seq.prems obtain x where "x \<in> set (rmatch ic a st)" "e \<in> set (rmatch ic b x)"
    by (auto simp: set_bindList)
  then show ?case using Seq.IH extends_trans by blast
next
  case (Star r)
  then show ?case using iterGreedy_extends [of "\<lambda>st'. rmatch ic r st'"] by auto
next
  case (LazyStar r)
  then show ?case using iterLazy_extends [of "\<lambda>st'. rmatch ic r st'"] by auto
next
  case (Grp n r)
  then show ?case by (auto intro: extends_caps)
qed (auto simp: extends_refl matchLit_extends matchChar_extends split: if_splits list.splits)

lemma mkResult_text: "extends st e \<Longrightarrow> mText (mkResult st e) @ mRest e = mRest st \<and> length (mText (mkResult st e)) = mPos e - mPos st"
  by (auto simp: extends_def mkResult_def)

lemma rmatchHere_Some:
  "rmatchHere ic r st = Some m \<Longrightarrow> \<exists>e. e \<in> set (rmatch ic r st) \<and> m = mkResult st e"
  by (auto simp: rmatchHere_def split: list.splits)

lemma rmatchHere_text:
  assumes "rmatchHere ic r st = Some m"
  shows "mText m @ mRest (mAfter m) = mRest st" "mIndex m = mPos st" "extends st (mAfter m)"
    "mPos (mAfter m) = mPos st + length (mText m)"
proof -
  from rmatchHere_Some [OF assms] obtain e where e: "e \<in> set (rmatch ic r st)" "m = mkResult st e"
    by blast
  have x: "extends st e" using e rmatch_extends by blast
  show "mText m @ mRest (mAfter m) = mRest st" using mkResult_text [OF x] e by (simp add: mkResult_def)
  show "mIndex m = mPos st" using e by (simp add: mkResult_def)
  show "extends st (mAfter m)" using x e by (simp add: mkResult_def)
  show "mPos (mAfter m) = mPos st + length (mText m)"
    using mkResult_text [OF x] e extends_pos [OF x] by (simp add: mkResult_def)
qed


section \<open>Splitting at the top-level UNION operators\<close>

datatype UnionType = UNION_ALL | UNION










subsection \<open>Union chains\<close>














subsection \<open>Characters\<close>








definition keyword :: "string \<Rightarrow> bool" where
  "keyword k = (k \<noteq> [] \<and> set k \<subseteq> set lowerChars)"

lemma keyword_union [simp]: "keyword ''union''" "keyword ''all''"
  by (simp_all add: keyword_def lowerChars_def)












subsection \<open>The two expressions on a chain\<close>

lemma toLowerCase_keywords [simp]: "toLowerCase ''UNION'' = ''union''" "toLowerCase ''ALL'' = ''all''"
  by (simp_all add: toLowerCase_def toLowerChar_def upperChars_def lowerChars_def)


























subsection \<open>The scan on a chain\<close>














section \<open>Data model\<close>

text \<open>
  The interfaces of the parser as records. A field keeps its name in the source where
  the name is free; \<open>name\<close>, \<open>alias\<close>, \<open>type\<close>, \<open>table\<close>, \<open>condition\<close> \<open>fields\<close> and \<open>id\<close>, which several
  interfaces share or which are taken, are prefixed. The optional flag \<open>isTempTable\<close> is a
  boolean (absent is false: the source only tests its truth); the optional \<open>type\<close> and
  \<open>unionInfo\<close> are options.
\<close>

datatype TableType = Fact | Dimension

record TableRef =
  trName :: string
  schema :: string
  tableName :: string
  trAlias :: string
  trType :: "TableType option"

record FieldInfo =
  expression :: string
  fiAlias :: string
  originalName :: string
  displayText :: string
  transformation :: string

record JoinInfo =
  joinType :: string
  joinTable :: TableRef
  joinCondition :: string

record FilterInfo =
  clause :: string
  filterCondition :: string

record UnionInfo =
  unionType :: UnionType
  sources :: "string list"

record SubQuery =
  sqId :: string
  sqName :: string
  isCTE :: bool
  isSubQuery :: bool
  isTempTable :: bool
  tables :: "TableRef list"
  sqFields :: "FieldInfo list"
  joins :: "JoinInfo list"
  filters :: "FilterInfo list"
  groupBy :: "string list"
  orderBy :: "string list"
  dependsOn :: "string list"
  unionInfo :: "UnionInfo option"

record ParsedSQL =
  ctes :: "SubQuery list"
  mainQuery :: "SubQuery"
  subQueries :: "SubQuery list"
  allQueries :: "SubQuery list"

definition unionTypeText :: "UnionType \<Rightarrow> string" where
  "unionTypeText t = (case t of UNION_ALL \<Rightarrow> ''UNION ALL'' | UNION \<Rightarrow> ''UNION'')"

text \<open>\<open>s.strIncludes(sub)\<close>\<close>

fun strIncludes :: "string \<Rightarrow> string \<Rightarrow> bool" where
  "strIncludes [] sub = (sub = [])"
| "strIncludes (c # cs) sub = (startsWith (c # cs) sub \<or> strIncludes cs sub)"

definition classifyTable :: "string \<Rightarrow> TableType" where
  "classifyTable fullName =
     (let lowerName = toLowerCase fullName
      in if strIncludes lowerName ''app'' \<or> strIncludes lowerName ''dm''
            \<or> strIncludes lowerName ''dwd'' \<or> strIncludes lowerName ''dws''
         then Fact else Dimension)"

section \<open>Graph assembler\<close>

text \<open>
  The assembler \<open>buildFlowElements\<close>. The layout library only assigns positions to the
  nodes after all nodes and edges are built; positions, sizes and the drawing attributes
  of nodes and edges are left out. An edge keeps its id, source, target, label and which
  of the three drawings it has. The map \<open>queryMap\<close> of the source is written and never
  read, and is left out. Labels that the source writes in Chinese are written in English.
\<close>

datatype EdgeStyle = PlainEdge | UnionEdge | TerminalEdge

record FlowEdge =
  edgeId :: string
  edgeSource :: string
  edgeTarget :: string
  edgeLabel :: "string option"
  edgeStyle :: EdgeStyle

datatype NodeType = SourceNode | CteNode | SubqueryNode | MainNode | OutputNode | TempNode

datatype NodeData =
    QueryNodeData string SubQuery NodeType
  | JoinNodeData string string string

record FlowNode =
  nodeId :: string
  nodeData :: NodeData

definition nodeLabel :: "FlowNode \<Rightarrow> string" where
  "nodeLabel n = (case nodeData n of QueryNodeData l _ _ \<Rightarrow> l | JoinNodeData l _ _ \<Rightarrow> l)"

text \<open>The mutable variables of \<open>buildFlowElements\<close>. \<open>handledDeps\<close> is the set that every
  iteration of the main loop creates anew. Sets are lists without repetition.\<close>

record BuildState =
  nodes :: "FlowNode list"
  edges :: "FlowEdge list"
  addedEdges :: "string list"
  joinNodeCounter :: nat
  handledDeps :: "string list"

definition setAdd :: "'a \<Rightarrow> 'a list \<Rightarrow> 'a list" where
  "setAdd x xs = (if x \<in> set xs then xs else xs @ [x])"

text \<open>\<open>Map.set\<close>: a key that is present keeps its place and gets the new value; a new key
  goes to the end. The entries are iterated in this order.\<close>

fun mapSet :: "'k \<Rightarrow> 'v \<Rightarrow> ('k \<times> 'v) list \<Rightarrow> ('k \<times> 'v) list" where
  "mapSet k v [] = [(k, v)]"
| "mapSet k v ((k', v') # m) = (if k' = k then (k, v) # m else (k', v') # mapSet k v m)"

text \<open>The search loops over \<open>nodeIdMap.entries()\<close>: the value of the first entry whose
  normalized key satisfies the test, or undefined. A string is truthy when it is not
  empty.\<close>

definition lookupNodeId :: "(string \<Rightarrow> bool) \<Rightarrow> (string \<times> string) list \<Rightarrow> string option" where
  "lookupNodeId p nodeIdMap = map_option snd (find (\<lambda>(key, value). p (getMatchName key)) nodeIdMap)"

definition truthy :: "string option \<Rightarrow> bool" where
  "truthy v = (case v of None \<Rightarrow> False | Some s \<Rightarrow> s \<noteq> [])"

text \<open>Decimal digits of a counter in a template string.\<close>

fun digitsOf :: "nat \<Rightarrow> string" where
  "digitsOf n = (if n < 10 then [digitChars ! n] else digitsOf (n div 10) @ [digitChars ! (n mod 10)])"

declare digitsOf.simps [simp del]

definition emptySubQuery :: "string \<Rightarrow> string \<Rightarrow> SubQuery" where
  "emptySubQuery i n =
     \<lparr>sqId = i, sqName = n, isCTE = False, isSubQuery = False, isTempTable = False,
      tables = [], sqFields = [], joins = [], filters = [], groupBy = [], orderBy = [],
      dependsOn = [], unionInfo = None\<rparr>"

definition ensureSourceNode :: "string \<Rightarrow> string \<Rightarrow> FlowNode list \<Rightarrow> string \<times> FlowNode list" where
  "ensureSourceNode tblName alias ns =
     (let sourceId = ''source_'' @
            filter (\<lambda>c. c \<in> set lowerChars \<or> c \<in> set digitChars \<or> c = CHR ''_'')
              (map (\<lambda>c. if c = CHR ''.'' then CHR ''_'' else c) (toLowerCase tblName))
      in if find (\<lambda>n. nodeId n = sourceId) ns = None then
           (let tableRef =
                  \<lparr>trName = tblName,
                   schema = (if strIncludes tblName ''.'' then takeWhile (\<lambda>c. c \<noteq> CHR ''.'') tblName else []),
                   tableName = (if strIncludes tblName ''.''
                                then tl (dropWhile (\<lambda>c. c \<noteq> CHR ''.'') tblName) else tblName),
                   trAlias = (if alias \<noteq> [] then alias else tblName),
                   trType = Some (classifyTable tblName)\<rparr>;
                sourceLabel = (if schema tableRef \<noteq> [] then schema tableRef else trName tableRef)
            in (sourceId,
                ns @ [\<lparr>nodeId = sourceId,
                        nodeData = QueryNodeData sourceLabel
                          ((emptySubQuery sourceId (trName tableRef))\<lparr>tables := [tableRef]\<rparr>)
                          SourceNode\<rparr>]))
         else (sourceId, ns))"

definition edgeKey :: "string \<Rightarrow> string \<Rightarrow> string" where
  "edgeKey sourceId targetId = sourceId @ ''->'' @ targetId"

definition plainEdge :: "string \<Rightarrow> string \<Rightarrow> FlowEdge" where
  "plainEdge sourceId targetId =
     \<lparr>edgeId = ''e_'' @ sourceId @ ''_'' @ targetId, edgeSource = sourceId,
      edgeTarget = targetId, edgeLabel = None, edgeStyle = PlainEdge\<rparr>"

definition unionEdge :: "string \<Rightarrow> string \<Rightarrow> string \<Rightarrow> FlowEdge" where
  "unionEdge sourceId targetId lbl =
     \<lparr>edgeId = ''e_union_'' @ sourceId @ ''_'' @ targetId, edgeSource = sourceId,
      edgeTarget = targetId, edgeLabel = Some (if lbl \<noteq> [] then lbl else ''UNION ALL''),
      edgeStyle = UnionEdge\<rparr>"

text \<open>\<open>addEdge(sourceId, targetId, options)\<close>; the options are absent or the pair
  \<open>(isUnion, unionLabel)\<close>.\<close>

definition addEdge :: "string \<Rightarrow> string \<Rightarrow> (bool \<times> string) option \<Rightarrow> BuildState \<Rightarrow> BuildState" where
  "addEdge sourceId targetId options st =
     (let key = edgeKey sourceId targetId
      in if key \<in> set (addedEdges st) then st
         else st\<lparr>addedEdges := addedEdges st @ [key],
                 edges := edges st @
                   [case options of
                      Some (True, lbl) \<Rightarrow> unionEdge sourceId targetId lbl
                    | _ \<Rightarrow> plainEdge sourceId targetId]\<rparr>)"

text \<open>The three edges of a join diamond are pushed in place, after the same test on
  the set of added edges.\<close>

definition pushPlain :: "string \<Rightarrow> string \<Rightarrow> BuildState \<Rightarrow> BuildState" where
  "pushPlain sourceId targetId st =
     (let ek = edgeKey sourceId targetId
      in if ek \<notin> set (addedEdges st)
         then st\<lparr>addedEdges := addedEdges st @ [ek], edges := edges st @ [plainEdge sourceId targetId]\<rparr>
         else st)"

text \<open>The nodes of the units and the map \<open>nodeIdMap\<close> from names and ids to node ids.\<close>

definition unitNode :: "SubQuery \<Rightarrow> NodeType \<Rightarrow> FlowNode" where
  "unitNode sq t = \<lparr>nodeId = sqId sq, nodeData = QueryNodeData (sqName sq) sq t\<rparr>"

definition addCteNode :: "SubQuery \<Rightarrow> (string \<times> string) list \<times> FlowNode list
    \<Rightarrow> (string \<times> string) list \<times> FlowNode list" where
  "addCteNode cte acc =
     (case acc of (nodeIdMap, ns) \<Rightarrow>
        (mapSet (sqId cte) (sqId cte) (mapSet (toLowerCase (sqName cte)) (sqId cte) nodeIdMap),
         ns @ [unitNode cte (if isTempTable cte then TempNode else CteNode)]))"

definition addSubQueryNode :: "SubQuery \<Rightarrow> (string \<times> string) list \<times> FlowNode list
    \<Rightarrow> (string \<times> string) list \<times> FlowNode list" where
  "addSubQueryNode sq acc =
     (case acc of (nodeIdMap, ns) \<Rightarrow>
        (mapSet (sqId sq) (sqId sq) nodeIdMap, ns @ [unitNode sq SubqueryNode]))"

definition outputId :: string where
  "outputId = ''output''"

definition outputNode :: "ParsedSQL \<Rightarrow> FlowNode" where
  "outputNode parsed =
     \<lparr>nodeId = outputId,
      nodeData = QueryNodeData ''Output''
        ((emptySubQuery outputId ''Output'')\<lparr>sqFields := sqFields (mainQuery parsed)\<rparr>) OutputNode\<rparr>"

text \<open>The first loop over \<open>allQueries\<close>: the union sources that are known units give the
  set \<open>unionDeps\<close> of edge keys, the others the map \<open>unionPhysicalSources\<close>.\<close>

definition unionSourceStep :: "(string \<times> string) list \<Rightarrow> SubQuery \<Rightarrow> string
    \<Rightarrow> string list \<times> string list \<Rightarrow> string list \<times> string list" where
  "unionSourceStep nodeIdMap sq src acc =
     (case acc of (unionDeps, physicalSources) \<Rightarrow>
        (let srcMatch = getMatchName src;
             foundNodeId = lookupNodeId (\<lambda>keyMatch. keyMatch = srcMatch) nodeIdMap
         in if truthy foundNodeId
            then (setAdd (edgeKey (the foundNodeId) (sqId sq)) unionDeps, physicalSources)
            else (unionDeps, physicalSources @ [src])))"

definition unionQueryStep :: "(string \<times> string) list \<Rightarrow> SubQuery
    \<Rightarrow> string list \<times> (string \<times> string list) list
    \<Rightarrow> string list \<times> (string \<times> string list) list" where
  "unionQueryStep nodeIdMap sq acc =
     (case acc of (unionDeps, unionPhysicalSources) \<Rightarrow>
        (case unionInfo sq of
           None \<Rightarrow> (unionDeps, unionPhysicalSources)
         | Some info \<Rightarrow>
             (case fold (unionSourceStep nodeIdMap sq) (sources info) (unionDeps, []) of
                (unionDeps', physicalSources) \<Rightarrow>
                  (unionDeps',
                   if 0 < length physicalSources
                   then mapSet (sqId sq) physicalSources unionPhysicalSources
                   else unionPhysicalSources))))"

text \<open>The main loop, one unit \<open>sq\<close> at a time. First the FROM table: the first table that
  is not the table of a join.\<close>

fun findFromTable :: "(string \<times> string) list \<Rightarrow> string list \<Rightarrow> TableRef list \<Rightarrow> FlowNode list
    \<Rightarrow> string option \<times> FlowNode list" where
  "findFromTable nodeIdMap joinTableNames [] ns = (None, ns)"
| "findFromTable nodeIdMap joinTableNames (tbl # tbls) ns =
     (let tableLower = getMatchName (trName tbl);
          tableNameLower = getMatchName (tableName tbl);
          knownNodeId = lookupNodeId (\<lambda>keyMatch. keyMatch = tableLower \<or> keyMatch = tableNameLower) nodeIdMap;
          isJoin = list_ex (\<lambda>j. getMatchName j = tableLower) joinTableNames
      in if truthy knownNodeId then
           (if \<not> isJoin then (knownNodeId, ns)
            else findFromTable nodeIdMap joinTableNames tbls ns)
         else
           (if \<not> isJoin then
              (case ensureSourceNode (trName tbl) (trAlias tbl) ns of
                 (sourceId, ns') \<Rightarrow> (Some sourceId, ns'))
            else findFromTable nodeIdMap joinTableNames tbls ns))"

text \<open>One join: its source node, the diamond, the three edges, and the handled names.\<close>

definition markFromTableHandled :: "string list \<Rightarrow> TableRef list \<Rightarrow> string list \<Rightarrow> string list" where
  "markFromTableHandled joinTableNames tbls handled =
     (case find (\<lambda>tbl. toLowerCase (trName tbl) \<notin> set joinTableNames) tbls of
        None \<Rightarrow> handled
      | Some tbl \<Rightarrow> setAdd (toLowerCase (tableName tbl)) (setAdd (toLowerCase (trName tbl)) handled))"

definition joinSourceNode :: "(string \<times> string) list \<Rightarrow> JoinInfo \<Rightarrow> FlowNode list
    \<Rightarrow> string \<times> FlowNode list" where
  "joinSourceNode nodeIdMap join ns =
     (let tableLower = getMatchName (trName (joinTable join));
          tableNameLower = getMatchName (tableName (joinTable join));
          found = lookupNodeId (\<lambda>keyMatch. keyMatch = tableLower \<or> keyMatch = tableNameLower) nodeIdMap
      in if truthy found then (the found, ns)
         else ensureSourceNode (trName (joinTable join)) (trAlias (joinTable join)) ns)"

definition joinEdges :: "string option \<Rightarrow> string \<Rightarrow> string \<Rightarrow> SubQuery \<Rightarrow> BuildState \<Rightarrow> BuildState" where
  "joinEdges fromTableNodeId joinSourceNodeId joinId sq st =
     pushPlain joinId (sqId sq)
       (pushPlain joinSourceNodeId joinId
          (if truthy fromTableNodeId then pushPlain (the fromTableNodeId) joinId st else st))"

definition joinHandled :: "string list \<Rightarrow> string option \<Rightarrow> SubQuery \<Rightarrow> JoinInfo \<Rightarrow> string list \<Rightarrow> string list" where
  "joinHandled joinTableNames fromTableNodeId sq join handled =
     (let handled1 = setAdd (getMatchName (tableName (joinTable join)))
                       (setAdd (getMatchName (trName (joinTable join))) handled)
      in if truthy fromTableNodeId
         then markFromTableHandled joinTableNames (tables sq) handled1 else handled1)"

fun joinStepWith :: "string list \<Rightarrow> string option \<Rightarrow> SubQuery \<Rightarrow> JoinInfo
    \<Rightarrow> string \<times> FlowNode list \<Rightarrow> BuildState \<Rightarrow> BuildState" where
  "joinStepWith joinTableNames fromTableNodeId sq join (joinSourceNodeId, ns) st =
     (let joinId = ''join_'' @ digitsOf (joinNodeCounter st);
          st' = joinEdges fromTableNodeId joinSourceNodeId joinId sq
                  (st\<lparr>joinNodeCounter := Suc (joinNodeCounter st),
                      nodes := ns @ [\<lparr>nodeId = joinId,
                        nodeData = JoinNodeData (joinType join) (joinType join) (joinCondition join)\<rparr>]\<rparr>)
      in st'\<lparr>handledDeps := joinHandled joinTableNames fromTableNodeId sq join (handledDeps st')\<rparr>)"

definition joinStep :: "(string \<times> string) list \<Rightarrow> string list \<Rightarrow> string option \<Rightarrow> SubQuery
    \<Rightarrow> JoinInfo \<Rightarrow> BuildState \<Rightarrow> BuildState" where
  "joinStep nodeIdMap joinTableNames fromTableNodeId sq join st =
     joinStepWith joinTableNames fromTableNodeId sq join (joinSourceNode nodeIdMap join (nodes st)) st"

text \<open>The physical sources of a union.\<close>

definition unionLabelOf :: "SubQuery \<Rightarrow> string" where
  "unionLabelOf sq = (case unionInfo sq of None \<Rightarrow> ''UNION ALL'' | Some info \<Rightarrow> unionTypeText (unionType info))"

definition unionPhysicalStep :: "SubQuery \<Rightarrow> string \<Rightarrow> BuildState \<Rightarrow> BuildState" where
  "unionPhysicalStep sq tblName st =
     (case ensureSourceNode tblName [] (nodes st) of
        (sourceNodeId, ns) \<Rightarrow>
          (let st1 = addEdge sourceNodeId (sqId sq) (Some (True, unionLabelOf sq)) (st\<lparr>nodes := ns\<rparr>)
           in st1\<lparr>handledDeps := setAdd (toLowerCase tblName) (handledDeps st1)\<rparr>))"

text \<open>The entries of \<open>dependsOn\<close> that joins and unions have not connected.\<close>

definition dependsOnStep :: "(string \<times> string) list \<Rightarrow> string list \<Rightarrow> SubQuery \<Rightarrow> string
    \<Rightarrow> BuildState \<Rightarrow> BuildState" where
  "dependsOnStep nodeIdMap unionDeps sq dep st =
     (let depMatch = getMatchName dep
      in if list_ex (\<lambda>h. getMatchName h = depMatch) (handledDeps st) then st
         else
           (let depNodeId = lookupNodeId (\<lambda>keyMatch. keyMatch = depMatch) nodeIdMap
            in if \<not> truthy depNodeId then st
               else if the depNodeId = sqId sq then st
               else
                 (let ek = edgeKey (the depNodeId) (sqId sq)
                  in if ek \<in> set (addedEdges st) then st
                     else
                       (let isUnion = (ek \<in> set unionDeps);
                            st1 = addEdge (the depNodeId) (sqId sq) (Some (isUnion, unionLabelOf sq)) st
                        in st1\<lparr>handledDeps := setAdd dep (handledDeps st1)\<rparr>))))"

text \<open>The remaining tables.\<close>

definition tableStep :: "(string \<times> string) list \<Rightarrow> SubQuery \<Rightarrow> TableRef \<Rightarrow> BuildState \<Rightarrow> BuildState" where
  "tableStep nodeIdMap sq tbl st =
     (let tableMatch = getMatchName (trName tbl);
          tableNameMatch = getMatchName (tableName tbl)
      in if list_ex (\<lambda>h. let m = getMatchName h in m = tableMatch \<or> m = tableNameMatch) (handledDeps st)
         then st
         else
           (let depNodeId = lookupNodeId (\<lambda>m. m = tableMatch \<or> m = tableNameMatch) nodeIdMap
            in if truthy depNodeId then
                 (let st1 = (if the depNodeId \<noteq> sqId sq then
                               (let ek = edgeKey (the depNodeId) (sqId sq)
                                in if ek \<notin> set (addedEdges st)
                                   then addEdge (the depNodeId) (sqId sq) None st else st)
                             else st)
                  in st1\<lparr>handledDeps := setAdd (trName tbl) (handledDeps st1)\<rparr>)
               else
                 (case ensureSourceNode (trName tbl) (trAlias tbl) (nodes st) of
                    (sourceId, ns) \<Rightarrow>
                      (let st1 = addEdge sourceId (sqId sq) None (st\<lparr>nodes := ns\<rparr>)
                       in st1\<lparr>handledDeps := setAdd (trName tbl) (handledDeps st1)\<rparr>))))"

text \<open>The rescue of a unit without incoming edges. \<open>incomingEdges\<close> is computed once,
  before the loop.\<close>

definition rescueStep :: "(string \<times> string) list \<Rightarrow> SubQuery \<Rightarrow> FlowEdge list \<Rightarrow> TableRef
    \<Rightarrow> BuildState \<Rightarrow> BuildState" where
  "rescueStep nodeIdMap sq incomingEdges tbl st =
     (let tableMatch = getMatchName (trName tbl);
          tableNameMatch = getMatchName (tableName tbl);
          alreadyConnected =
            list_ex (\<lambda>edge. case find (\<lambda>n. nodeId n = edgeSource edge) (nodes st) of
                               None \<Rightarrow> False
                             | Some sourceNode \<Rightarrow>
                                 (let labelMatch = getMatchName (nodeLabel sourceNode)
                                  in labelMatch = tableMatch \<or> labelMatch = tableNameMatch))
              incomingEdges
      in if alreadyConnected then st
         else
           (let found = lookupNodeId (\<lambda>m. m = tableMatch \<or> m = tableNameMatch) nodeIdMap;
                (sourceNodeId, ns) =
                   (if truthy found then (the found, nodes st)
                    else ensureSourceNode (trName tbl) (trAlias tbl) (nodes st))
            in addEdge sourceNodeId (sqId sq) None (st\<lparr>nodes := ns\<rparr>)))"

definition rescue :: "(string \<times> string) list \<Rightarrow> SubQuery \<Rightarrow> BuildState \<Rightarrow> BuildState" where
  "rescue nodeIdMap sq st =
     (let incomingEdges = filter (\<lambda>e. edgeTarget e = sqId sq) (edges st)
      in if length incomingEdges = 0 \<and> (isCTE sq \<or> isTempTable sq \<or> isSubQuery sq)
         then fold (rescueStep nodeIdMap sq incomingEdges) (tables sq) st
         else st)"

text \<open>One iteration of the main loop: the joins, the physical sources of a union, the
  entries of \<open>dependsOn\<close>, the remaining tables, the rescue.\<close>

definition joinTableNamesOf :: "SubQuery \<Rightarrow> string list" where
  "joinTableNamesOf sq = remdups (map (\<lambda>j. toLowerCase (trName (joinTable j))) (joins sq))"

fun joinPhaseFrom :: "(string \<times> string) list \<Rightarrow> SubQuery \<Rightarrow> string option \<times> FlowNode list
    \<Rightarrow> BuildState \<Rightarrow> BuildState" where
  "joinPhaseFrom nodeIdMap sq (fromTableNodeId, ns) st =
     fold (joinStep nodeIdMap (joinTableNamesOf sq) fromTableNodeId sq) (joins sq) (st\<lparr>nodes := ns\<rparr>)"

definition joinPhase :: "(string \<times> string) list \<Rightarrow> SubQuery \<Rightarrow> BuildState \<Rightarrow> BuildState" where
  "joinPhase nodeIdMap sq st =
     joinPhaseFrom nodeIdMap sq (findFromTable nodeIdMap (joinTableNamesOf sq) (tables sq) (nodes st)) st"

definition unionPhase :: "(string \<times> string list) list \<Rightarrow> SubQuery \<Rightarrow> BuildState \<Rightarrow> BuildState" where
  "unionPhase unionPhysicalSources sq st =
     (case map_of unionPhysicalSources (sqId sq) of
        None \<Rightarrow> st
      | Some physicalUnionSources \<Rightarrow> fold (unionPhysicalStep sq) physicalUnionSources st)"

definition processQuery :: "(string \<times> string) list \<Rightarrow> string list \<Rightarrow> (string \<times> string list) list
    \<Rightarrow> SubQuery \<Rightarrow> BuildState \<Rightarrow> BuildState" where
  "processQuery nodeIdMap unionDeps unionPhysicalSources sq st =
     rescue nodeIdMap sq
       (fold (tableStep nodeIdMap sq) (tables sq)
          (fold (dependsOnStep nodeIdMap unionDeps sq) (dependsOn sq)
             (unionPhase unionPhysicalSources sq
                (joinPhase nodeIdMap sq (st\<lparr>handledDeps := []\<rparr>)))))"

text \<open>The edge from the main query to the output is added last and redrawn.\<close>

fun restyleFirst :: "(FlowEdge \<Rightarrow> bool) \<Rightarrow> FlowEdge list \<Rightarrow> FlowEdge list" where
  "restyleFirst p [] = []"
| "restyleFirst p (e # es) = (if p e then e\<lparr>edgeStyle := TerminalEdge\<rparr> # es else e # restyleFirst p es)"

definition connectOutput :: "string \<Rightarrow> BuildState \<Rightarrow> FlowNode list \<times> FlowEdge list" where
  "connectOutput mainId st =
     (let st' = addEdge mainId outputId None st
      in (nodes st', restyleFirst (\<lambda>e. edgeSource e = mainId \<and> edgeTarget e = outputId) (edges st')))"

text \<open>\<open>buildFlowElements\<close>, in the order of the source: the nodes and \<open>nodeIdMap\<close>
  (\<open>buildNodes\<close>), the union sources (\<open>buildUnionSources\<close>), the main loop and the output
  edge (\<open>connectUnits\<close>).\<close>

definition buildNodes :: "ParsedSQL \<Rightarrow> (string \<times> string) list \<times> FlowNode list" where
  "buildNodes parsed =
     (case fold addSubQueryNode (subQueries parsed) (fold addCteNode (ctes parsed) ([], [])) of
        (nodeIdMap, ns) \<Rightarrow>
          (nodeIdMap, ns @ [unitNode (mainQuery parsed) MainNode] @ [outputNode parsed]))"

definition buildUnionSources :: "(string \<times> string) list \<Rightarrow> ParsedSQL
    \<Rightarrow> string list \<times> (string \<times> string list) list" where
  "buildUnionSources nodeIdMap parsed = fold (unionQueryStep nodeIdMap) (allQueries parsed) ([], [])"

fun connectUnits :: "ParsedSQL \<Rightarrow> (string \<times> string) list \<Rightarrow> FlowNode list
    \<Rightarrow> string list \<times> (string \<times> string list) list \<Rightarrow> FlowNode list \<times> FlowEdge list" where
  "connectUnits parsed nodeIdMap ns (unionDeps, unionPhysicalSources) =
     connectOutput (sqId (mainQuery parsed))
       (fold (processQuery nodeIdMap unionDeps unionPhysicalSources) (allQueries parsed)
          \<lparr>nodes = ns, edges = [], addedEdges = [], joinNodeCounter = 0, handledDeps = []\<rparr>)"

fun buildFrom :: "ParsedSQL \<Rightarrow> (string \<times> string) list \<times> FlowNode list
    \<Rightarrow> FlowNode list \<times> FlowEdge list" where
  "buildFrom parsed (nodeIdMap, ns) =
     connectUnits parsed nodeIdMap ns (buildUnionSources nodeIdMap parsed)"

definition buildFlowElements :: "ParsedSQL \<Rightarrow> FlowNode list \<times> FlowEdge list" where
  "buildFlowElements parsed = buildFrom parsed (buildNodes parsed)"

subsection \<open>Edges are added at most once\<close>

definition keyOf :: "FlowEdge \<Rightarrow> string" where
  "keyOf e = edgeKey (edgeSource e) (edgeTarget e)"

definition edgesTracked :: "BuildState \<Rightarrow> bool" where
  "edgesTracked st = (keyOf ` set (edges st) \<subseteq> set (addedEdges st) \<and> distinct (map keyOf (edges st)))"

lemma keyOf_plainEdge [simp]: "keyOf (plainEdge a b) = edgeKey a b"
  by (simp add: keyOf_def plainEdge_def)

lemma keyOf_unionEdge [simp]: "keyOf (unionEdge a b l) = edgeKey a b"
  by (simp add: keyOf_def unionEdge_def)

lemma edgesTracked_fields [simp]:
  "edgesTracked (st\<lparr>nodes := ns\<rparr>) = edgesTracked st"
  "edgesTracked (st\<lparr>handledDeps := h\<rparr>) = edgesTracked st"
  "edgesTracked (st\<lparr>joinNodeCounter := n\<rparr>) = edgesTracked st"
  by (simp_all add: edgesTracked_def)

lemma edgesTracked_addEdge: "edgesTracked st \<Longrightarrow> edgesTracked (addEdge a b opts st)"
  by (auto simp: edgesTracked_def addEdge_def Let_def split: option.splits bool.splits)

lemma edgesTracked_pushPlain: "edgesTracked st \<Longrightarrow> edgesTracked (pushPlain a b st)"
  by (auto simp: edgesTracked_def pushPlain_def Let_def)

lemma fold_preserves:
  assumes "\<And>x s. P s \<Longrightarrow> P (f x s)" and "P s"
  shows "P (fold f xs s)"
  using assms(2) by (induction xs arbitrary: s) (simp_all add: assms(1))

lemma edgesTracked_joinEdges: "edgesTracked st \<Longrightarrow> edgesTracked (joinEdges f a j sq st)"
  by (simp add: joinEdges_def edgesTracked_pushPlain)

lemma edgesTracked_joinStep: "edgesTracked st \<Longrightarrow> edgesTracked (joinStep m jt f sq j st)"
  by (cases "joinSourceNode m j (nodes st)")
     (simp add: joinStep_def Let_def edgesTracked_joinEdges)

lemma edgesTracked_unionPhysicalStep: "edgesTracked st \<Longrightarrow> edgesTracked (unionPhysicalStep sq t st)"
  by (simp add: unionPhysicalStep_def Let_def split_def edgesTracked_addEdge)

lemma edgesTracked_dependsOnStep: "edgesTracked st \<Longrightarrow> edgesTracked (dependsOnStep m u sq d st)"
  by (simp add: dependsOnStep_def Let_def edgesTracked_addEdge)

lemma edgesTracked_tableStep: "edgesTracked st \<Longrightarrow> edgesTracked (tableStep m sq t st)"
  by (simp add: tableStep_def Let_def split_def edgesTracked_addEdge)

lemma edgesTracked_rescueStep: "edgesTracked st \<Longrightarrow> edgesTracked (rescueStep m sq inc t st)"
  by (simp add: rescueStep_def Let_def split_def edgesTracked_addEdge)

lemma edgesTracked_rescue: "edgesTracked st \<Longrightarrow> edgesTracked (rescue m sq st)"
  by (simp add: rescue_def Let_def fold_preserves edgesTracked_rescueStep)

lemma edgesTracked_joinPhase: "edgesTracked st \<Longrightarrow> edgesTracked (joinPhase m sq st)"
  by (cases "findFromTable m (joinTableNamesOf sq) (tables sq) (nodes st)")
     (simp add: joinPhase_def fold_preserves edgesTracked_joinStep)

lemma edgesTracked_unionPhase: "edgesTracked st \<Longrightarrow> edgesTracked (unionPhase u sq st)"
  by (simp add: unionPhase_def fold_preserves edgesTracked_unionPhysicalStep split: option.splits)

lemma edgesTracked_processQuery: "edgesTracked st \<Longrightarrow> edgesTracked (processQuery m u p sq st)"
  by (simp add: processQuery_def edgesTracked_rescue fold_preserves edgesTracked_tableStep
      edgesTracked_dependsOnStep edgesTracked_unionPhase edgesTracked_joinPhase)

lemma restyleFirst_ends:
  "map (\<lambda>e. (edgeSource e, edgeTarget e)) (restyleFirst p es) = map (\<lambda>e. (edgeSource e, edgeTarget e)) es"
  by (induction es) simp_all

lemma edgesTracked_distinct_pairs:
  assumes "edgesTracked st"
  shows "distinct (map (\<lambda>e. (edgeSource e, edgeTarget e)) (edges st))"
proof -
  have "map keyOf (edges st) = map (\<lambda>p. edgeKey (fst p) (snd p)) (map (\<lambda>e. (edgeSource e, edgeTarget e)) (edges st))"
    by (simp add: keyOf_def)
  with assms show ?thesis
    by (metis distinct_map edgesTracked_def)
qed

text \<open>
  Claim C4. For every ParsedSQL, the edge list returned by \<open>buildFlowElements\<close> has no two
  edges with the same ordered pair of source and target: every insertion, through
  \<open>addEdge\<close> or in place, first tests the key of the pair against the set of added keys.
  The assembler is a function of the ParsedSQL alone, so every run on the same ParsedSQL
  returns this same duplicate-free list.
\<close>

theorem buildFlowElements_edges_distinct:
  "distinct (map (\<lambda>e. (edgeSource e, edgeTarget e)) (snd (buildFlowElements parsed)))"
proof -
  obtain nodeIdMap ns where bn: "buildNodes parsed = (nodeIdMap, ns)"
    by (cases "buildNodes parsed")
  obtain unionDeps ups where bu: "buildUnionSources nodeIdMap parsed = (unionDeps, ups)"
    by (cases "buildUnionSources nodeIdMap parsed")
  define st0 where "st0 = \<lparr>nodes = ns, edges = [], addedEdges = [], joinNodeCounter = 0, handledDeps = []\<rparr>"
  define st1 where "st1 = fold (processQuery nodeIdMap unionDeps ups) (allQueries parsed) st0"
  have "edgesTracked st0" by (simp add: st0_def edgesTracked_def)
  then have "edgesTracked st1"
    unfolding st1_def by (rule fold_preserves [rotated]) (rule edgesTracked_processQuery)
  then have "edgesTracked (addEdge (sqId (mainQuery parsed)) outputId None st1)"
    by (rule edgesTracked_addEdge)
  then have "distinct (map (\<lambda>e. (edgeSource e, edgeTarget e))
      (edges (addEdge (sqId (mainQuery parsed)) outputId None st1)))"
    by (rule edgesTracked_distinct_pairs)
  moreover have "snd (buildFlowElements parsed) =
      restyleFirst (\<lambda>e. edgeSource e = sqId (mainQuery parsed) \<and> edgeTarget e = outputId)
        (edges (addEdge (sqId (mainQuery parsed)) outputId None st1))"
    by (simp add: buildFlowElements_def bn bu connectOutput_def Let_def st1_def st0_def)
  ultimately show ?thesis by (simp add: restyleFirst_ends)
qed

subsection \<open>Incoming edges\<close>

definition noArrow :: "string \<Rightarrow> bool" where
  "noArrow s = (\<not> strIncludes s ''->'')"

lemma startsWith_iff: "startsWith s p = (\<exists>b. s = p @ b)"
  unfolding startsWith_def
  by (metis append_eq_conv_conj append_take_drop_id)

lemma strIncludes_iff: "strIncludes s sub = (\<exists>a b. s = a @ sub @ b)"
proof (induction s)
  case Nil
  then show ?case by auto
next
  case (Cons c cs)
  show ?case
  proof
    assume "strIncludes (c # cs) sub"
    then consider "startsWith (c # cs) sub" | "strIncludes cs sub" by auto
    then show "\<exists>a b. c # cs = a @ sub @ b"
    proof cases
      case 1
      then show ?thesis using startsWith_iff [of "c # cs" sub] by (metis append_Nil)
    next
      case 2
      with Cons obtain a b where "cs = a @ sub @ b" by blast
      then have "c # cs = (c # a) @ sub @ b" by simp
      then show ?thesis by blast
    qed
  next
    assume "\<exists>a b. c # cs = a @ sub @ b"
    then obtain a b where ab: "c # cs = a @ sub @ b" by blast
    show "strIncludes (c # cs) sub"
    proof (cases a)
      case Nil
      with ab have "startsWith (c # cs) sub" using startsWith_iff [of "c # cs" sub] by auto
      then show ?thesis by simp
    next
      case (Cons x a')
      with ab have "cs = a' @ sub @ b" by simp
      with Cons.IH show ?thesis by auto
    qed
  qed
qed

lemma noArrow_no_dash: "CHR ''-'' \<notin> set s \<Longrightarrow> noArrow s"
  by (auto simp: noArrow_def strIncludes_iff)

lemma arrow_split:
  assumes "us @ ''->'' @ b = ''->'' @ d" and "us \<noteq> []"
  shows "\<exists>r. us = ''->'' @ r"
proof -
  from assms obtain us' where u1: "us = CHR ''-'' # us'" by (cases us) auto
  with assms have "us' @ ''->'' @ b = CHR ''>'' # d" by simp
  then obtain us'' where "us' = CHR ''>'' # us''" by (cases us') auto
  with u1 show ?thesis by simp
qed

lemma edgeKey_inj:
  assumes "noArrow a" and "noArrow c" and "edgeKey a b = edgeKey c d"
  shows "a = c \<and> b = d"
proof -
  from assms(3) have eq: "a @ ''->'' @ b = c @ ''->'' @ d" by (simp add: edgeKey_def)
  then obtain us where
    "(a = c @ us \<and> us @ ''->'' @ b = ''->'' @ d) \<or> (a @ us = c \<and> ''->'' @ b = us @ ''->'' @ d)"
    by (auto simp: append_eq_append_conv2)
  then have "us = []"
  proof
    assume h: "a = c @ us \<and> us @ ''->'' @ b = ''->'' @ d"
    show ?thesis
    proof (rule ccontr)
      assume "us \<noteq> []"
      with h arrow_split obtain r where "us = ''->'' @ r" by blast
      with h have "a = c @ ''->'' @ r" by simp
      with assms(1) show False by (auto simp: noArrow_def strIncludes_iff)
    qed
  next
    assume h: "a @ us = c \<and> ''->'' @ b = us @ ''->'' @ d"
    show ?thesis
    proof (rule ccontr)
      assume "us \<noteq> []"
      with h arrow_split [of us d b] obtain r where "us = ''->'' @ r" by auto
      with h have "c = a @ ''->'' @ r" by simp
      with assms(2) show False by (auto simp: noArrow_def strIncludes_iff)
    qed
  qed
  with eq \<open>(a = c @ us \<and> us @ ''->'' @ b = ''->'' @ d) \<or> (a @ us = c \<and> ''->'' @ b = us @ ''->'' @ d)\<close>
  show ?thesis by auto
qed

text \<open>The state of the assembler is consistent when the keys of the edges are exactly
  the added keys, without repetition, and no source of an edge contains \<open>->\<close>.\<close>

definition graphOk :: "BuildState \<Rightarrow> bool" where
  "graphOk st =
     (edgesTracked st \<and> set (addedEdges st) \<subseteq> keyOf ` set (edges st)
      \<and> (\<forall>e\<in>set (edges st). noArrow (edgeSource e)))"

definition hasIncoming :: "string \<Rightarrow> BuildState \<Rightarrow> bool" where
  "hasIncoming t st = (\<exists>e\<in>set (edges st). edgeTarget e = t)"

lemma graphOk_fields [simp]:
  "graphOk (st\<lparr>nodes := ns\<rparr>) = graphOk st"
  "graphOk (st\<lparr>handledDeps := h\<rparr>) = graphOk st"
  "graphOk (st\<lparr>joinNodeCounter := n\<rparr>) = graphOk st"
  by (simp_all add: graphOk_def)

lemma hasIncoming_fields [simp]:
  "hasIncoming t (st\<lparr>nodes := ns\<rparr>) = hasIncoming t st"
  "hasIncoming t (st\<lparr>handledDeps := h\<rparr>) = hasIncoming t st"
  "hasIncoming t (st\<lparr>joinNodeCounter := n\<rparr>) = hasIncoming t st"
  by (simp_all add: hasIncoming_def)

lemma hasIncoming_of_key:
  assumes "graphOk st" and "noArrow a" and "edgeKey a b \<in> set (addedEdges st)"
  shows "hasIncoming b st"
proof -
  from assms(1,3) obtain e where e: "e \<in> set (edges st)" "keyOf e = edgeKey a b"
    by (auto simp: graphOk_def)
  with assms(1) have "noArrow (edgeSource e)" by (simp add: graphOk_def)
  with e(2) assms(2) have "edgeTarget e = b"
    using edgeKey_inj [of "edgeSource e" a "edgeTarget e" b] by (simp add: keyOf_def)
  with e(1) show ?thesis by (auto simp: hasIncoming_def)
qed

lemma edgeSource_new [simp]:
  "edgeSource (plainEdge a b) = a" "edgeTarget (plainEdge a b) = b"
  "edgeSource (unionEdge a b l) = a" "edgeTarget (unionEdge a b l) = b"
  by (simp_all add: plainEdge_def unionEdge_def)

lemma graphOk_addEdge: "graphOk st \<Longrightarrow> noArrow a \<Longrightarrow> graphOk (addEdge a b opts st)"
  unfolding graphOk_def using edgesTracked_addEdge [of st a b opts]
  by (auto simp: addEdge_def Let_def split: option.splits bool.splits)

lemma graphOk_pushPlain: "graphOk st \<Longrightarrow> noArrow a \<Longrightarrow> graphOk (pushPlain a b st)"
  unfolding graphOk_def using edgesTracked_pushPlain [of st a b]
  by (auto simp: pushPlain_def Let_def)

lemma hasIncoming_addEdge: "graphOk st \<Longrightarrow> noArrow a \<Longrightarrow> hasIncoming b (addEdge a b opts st)"
proof (cases "edgeKey a b \<in> set (addedEdges st)")
  case True
  then show ?thesis if "graphOk st" "noArrow a"
    using that hasIncoming_of_key by (simp add: addEdge_def)
next
  case False
  then show ?thesis
    by (auto simp: addEdge_def hasIncoming_def split: option.splits bool.splits)
qed

lemma hasIncoming_pushPlain: "graphOk st \<Longrightarrow> noArrow a \<Longrightarrow> hasIncoming b (pushPlain a b st)"
proof (cases "edgeKey a b \<in> set (addedEdges st)")
  case True
  then show ?thesis if "graphOk st" "noArrow a"
    using that hasIncoming_of_key by (simp add: pushPlain_def)
next
  case False
  then show ?thesis
    by (auto simp: pushPlain_def hasIncoming_def)
qed

lemma hasIncoming_keep_addEdge: "hasIncoming t st \<Longrightarrow> hasIncoming t (addEdge a b opts st)"
  by (auto simp: addEdge_def hasIncoming_def Let_def)

lemma hasIncoming_keep_pushPlain: "hasIncoming t st \<Longrightarrow> hasIncoming t (pushPlain a b st)"
  by (auto simp: pushPlain_def hasIncoming_def Let_def)

lemma digitsOf_digits: "set (digitsOf n) \<subseteq> set digitChars"
proof (induction n rule: digitsOf.induct)
  case (1 n)
  have "length digitChars = 10" by (simp add: digitChars_def)
  then have d: "\<And>k. k < 10 \<Longrightarrow> digitChars ! k \<in> set digitChars"
    by (metis nth_mem)
  show ?case
  proof (cases "n < 10")
    case True
    then show ?thesis using d [of n] by (simp add: digitsOf.simps [of n])
  next
    case False
    then show ?thesis using "1.IH" d [of "n mod 10"] by (simp add: digitsOf.simps [of n])
  qed
qed

lemma noArrow_joinId: "noArrow (''join_'' @ digitsOf n)"
proof (rule noArrow_no_dash)
  have "CHR ''-'' \<notin> set digitChars" by (simp add: digitChars_def)
  with digitsOf_digits [of n] show "CHR ''-'' \<notin> set (''join_'' @ digitsOf n)" by auto
qed

lemma noArrow_ensureSourceNode: "noArrow (fst (ensureSourceNode t a ns))"
proof -
  have "CHR ''-'' \<notin> set lowerChars" "CHR ''-'' \<notin> set digitChars"
    by (simp_all add: lowerChars_def digitChars_def)
  then show ?thesis
    by (auto simp: ensureSourceNode_def Let_def intro!: noArrow_no_dash)
qed

definition mapOk :: "(string \<times> string) list \<Rightarrow> bool" where
  "mapOk m = (\<forall>v\<in>snd ` set m. noArrow v)"

lemma find_in_set: "find P xs = Some x \<Longrightarrow> x \<in> set xs"
  by (induction xs) (auto split: if_splits)

lemma lookupNodeId_value: "lookupNodeId p m = Some v \<Longrightarrow> v \<in> snd ` set m"
  by (auto simp: lookupNodeId_def dest!: find_in_set intro: rev_image_eqI)

lemma truthy_lookup:
  "truthy (lookupNodeId p m) \<Longrightarrow> the (lookupNodeId p m) \<in> snd ` set m"
  by (cases "lookupNodeId p m") (auto simp: truthy_def dest: lookupNodeId_value)

lemma noArrow_lookup: "mapOk m \<Longrightarrow> truthy (lookupNodeId p m) \<Longrightarrow> noArrow (the (lookupNodeId p m))"
  unfolding mapOk_def using truthy_lookup [of p m] by blast

lemma findFromTable_noArrow:
  "mapOk m \<Longrightarrow> findFromTable m jt tbls ns = (f, ns') \<Longrightarrow> truthy f \<Longrightarrow> noArrow (the f)"
proof (induction tbls arbitrary: ns)
  case Nil
  then show ?case by (simp add: truthy_def)
next
  case (Cons tbl tbls)
  then show ?case
    using noArrow_ensureSourceNode [of "trName tbl" "trAlias tbl" ns]
    by (auto simp: Let_def noArrow_lookup split: if_splits prod.splits)
qed

text \<open>The steps of the main loop keep the state consistent and keep every edge.\<close>

lemma joinSourceNode_noArrow: "mapOk m \<Longrightarrow> noArrow (fst (joinSourceNode m j ns))"
  using noArrow_ensureSourceNode [of "trName (joinTable j)" "trAlias (joinTable j)" ns]
  by (simp add: joinSourceNode_def Let_def noArrow_lookup)

lemma joinEdges_ok:
  assumes "graphOk st" and "noArrow a" and "noArrow jid" and "truthy f \<Longrightarrow> noArrow (the f)"
  shows "graphOk (joinEdges f a jid sq st)" and "hasIncoming (sqId sq) (joinEdges f a jid sq st)"
proof -
  have g2: "graphOk (if truthy f then pushPlain (the f) jid st else st)"
    using assms(1,4) by (simp add: graphOk_pushPlain)
  then have g3: "graphOk (pushPlain a jid (if truthy f then pushPlain (the f) jid st else st))"
    using assms(2) by (rule graphOk_pushPlain)
  show "graphOk (joinEdges f a jid sq st)"
    unfolding joinEdges_def using g3 assms(3) by (rule graphOk_pushPlain)
  show "hasIncoming (sqId sq) (joinEdges f a jid sq st)"
    unfolding joinEdges_def using g3 assms(3) by (rule hasIncoming_pushPlain)
qed

lemma joinEdges_keep: "hasIncoming t st \<Longrightarrow> hasIncoming t (joinEdges f a jid sq st)"
  by (simp add: joinEdges_def hasIncoming_keep_pushPlain)

lemma joinStep_ok:
  assumes "graphOk st" and "mapOk m" and "truthy f \<Longrightarrow> noArrow (the f)"
  shows "graphOk (joinStep m jt f sq j st)" and "hasIncoming (sqId sq) (joinStep m jt f sq j st)"
proof -
  obtain a ns where src: "joinSourceNode m j (nodes st) = (a, ns)"
    by (cases "joinSourceNode m j (nodes st)")
  have na: "noArrow a" using joinSourceNode_noArrow [OF assms(2), of j "nodes st"] src by simp
  define st1 where "st1 = st\<lparr>joinNodeCounter := Suc (joinNodeCounter st),
      nodes := ns @ [\<lparr>nodeId = ''join_'' @ digitsOf (joinNodeCounter st),
        nodeData = JoinNodeData (joinType j) (joinType j) (joinCondition j)\<rparr>]\<rparr>"
  have g1: "graphOk st1" using assms(1) by (simp add: st1_def)
  have nj: "noArrow (''join_'' @ digitsOf (joinNodeCounter st))" by (rule noArrow_joinId)
  note r = joinEdges_ok [OF g1 na nj assms(3), of sq]
  show "graphOk (joinStep m jt f sq j st)"
    using r(1) by (simp add: joinStep_def src Let_def st1_def del: append.simps)
  show "hasIncoming (sqId sq) (joinStep m jt f sq j st)"
    using r(2) by (simp add: joinStep_def src Let_def st1_def del: append.simps)
qed

lemma joinStep_keep: "hasIncoming t st \<Longrightarrow> hasIncoming t (joinStep m jt f sq j st)"
  by (cases "joinSourceNode m j (nodes st)") (simp add: joinStep_def Let_def joinEdges_keep)

lemma unionPhysicalStep_ok:
  assumes "graphOk st"
  shows "graphOk (unionPhysicalStep sq t st)" and "hasIncoming (sqId sq) (unionPhysicalStep sq t st)"
  using assms noArrow_ensureSourceNode [of t "[]" "nodes st"]
  by (simp_all add: unionPhysicalStep_def Let_def split_def graphOk_addEdge hasIncoming_addEdge)

lemma unionPhysicalStep_keep: "hasIncoming t st \<Longrightarrow> hasIncoming t (unionPhysicalStep sq x st)"
  by (simp add: unionPhysicalStep_def Let_def split_def hasIncoming_keep_addEdge)

lemma dependsOnStep_ok:
  assumes "graphOk st" and "mapOk m"
  shows "graphOk (dependsOnStep m u sq d st)"
  using assms by (simp add: dependsOnStep_def Let_def graphOk_addEdge noArrow_lookup)

lemma dependsOnStep_keep: "hasIncoming t st \<Longrightarrow> hasIncoming t (dependsOnStep m u sq d st)"
  by (simp add: dependsOnStep_def Let_def hasIncoming_keep_addEdge)

lemma tableStep_ok:
  assumes "graphOk st" and "mapOk m"
  shows "graphOk (tableStep m sq t st)"
  using assms noArrow_ensureSourceNode [of "trName t" "trAlias t" "nodes st"]
  by (simp add: tableStep_def Let_def split_def graphOk_addEdge noArrow_lookup)

lemma tableStep_keep: "hasIncoming t st \<Longrightarrow> hasIncoming t (tableStep m sq x st)"
  by (simp add: tableStep_def Let_def split_def hasIncoming_keep_addEdge)

lemma rescueStep_ok:
  assumes "graphOk st" and "mapOk m"
  shows "graphOk (rescueStep m sq inc t st)"
  using assms noArrow_ensureSourceNode [of "trName t" "trAlias t" "nodes st"]
  by (simp add: rescueStep_def Let_def split_def graphOk_addEdge noArrow_lookup)

lemma rescueStep_keep: "hasIncoming t st \<Longrightarrow> hasIncoming t (rescueStep m sq inc x st)"
  by (simp add: rescueStep_def Let_def split_def hasIncoming_keep_addEdge)

lemma rescueStep_first:
  assumes "graphOk st" and "mapOk m"
  shows "hasIncoming (sqId sq) (rescueStep m sq [] t st)"
  using assms noArrow_ensureSourceNode [of "trName t" "trAlias t" "nodes st"]
  by (simp add: rescueStep_def Let_def split_def hasIncoming_addEdge noArrow_lookup)

lemma rescue_ok: "graphOk st \<Longrightarrow> mapOk m \<Longrightarrow> graphOk (rescue m sq st)"
  by (simp add: rescue_def Let_def fold_preserves rescueStep_ok)

lemma rescue_keep: "hasIncoming t st \<Longrightarrow> hasIncoming t (rescue m sq st)"
  by (simp add: rescue_def Let_def fold_preserves rescueStep_keep)

lemma rescue_flagged:
  assumes "graphOk st" and "mapOk m" and "tables sq \<noteq> []"
    and "isCTE sq \<or> isTempTable sq \<or> isSubQuery sq"
  shows "hasIncoming (sqId sq) (rescue m sq st)"
proof (cases "filter (\<lambda>e. edgeTarget e = sqId sq) (edges st) = []")
  case False
  then have "hasIncoming (sqId sq) st"
    by (auto simp: hasIncoming_def filter_empty_conv)
  then show ?thesis by (rule rescue_keep)
next
  case True
  from assms(3) obtain t ts where ts: "tables sq = t # ts" by (cases "tables sq") auto
  have "hasIncoming (sqId sq) (rescueStep m sq [] t st)"
    using assms(1,2) by (rule rescueStep_first)
  then have "hasIncoming (sqId sq) (fold (rescueStep m sq []) ts (rescueStep m sq [] t st))"
    by (rule fold_preserves [rotated]) (rule rescueStep_keep)
  with True assms(4) ts show ?thesis by (simp add: rescue_def)
qed

lemma findFromTable_joinSteps_ok:
  assumes "graphOk st" and "mapOk m"
  shows "graphOk (joinPhase m sq st)"
proof -
  obtain f ns where ft: "findFromTable m (joinTableNamesOf sq) (tables sq) (nodes st) = (f, ns)"
    by (cases "findFromTable m (joinTableNamesOf sq) (tables sq) (nodes st)")
  have nf: "truthy f \<Longrightarrow> noArrow (the f)"
    using findFromTable_noArrow [OF assms(2) ft] .
  have "graphOk (fold (joinStep m (joinTableNamesOf sq) f sq) (joins sq) (st\<lparr>nodes := ns\<rparr>))"
    by (rule fold_preserves) (use assms nf joinStep_ok(1) in simp_all)
  then show ?thesis by (simp add: joinPhase_def ft)
qed

lemma joinPhase_keep: "hasIncoming t st \<Longrightarrow> hasIncoming t (joinPhase m sq st)"
  by (cases "findFromTable m (joinTableNamesOf sq) (tables sq) (nodes st)")
     (simp add: joinPhase_def fold_preserves joinStep_keep)

text \<open>While a unit is processed, a name is marked as handled only after an edge into the
  unit exists (the reference of a unit to itself apart).\<close>

definition handledOk :: "SubQuery \<Rightarrow> BuildState \<Rightarrow> bool" where
  "handledOk sq st = (graphOk st \<and> (handledDeps st \<noteq> [] \<longrightarrow> hasIncoming (sqId sq) st))"

lemma handledOk_joinPhase:
  assumes "graphOk st" and "mapOk m"
  shows "handledOk sq (joinPhase m sq (st\<lparr>handledDeps := []\<rparr>))"
proof -
  obtain f ns where ft: "findFromTable m (joinTableNamesOf sq) (tables sq) (nodes st) = (f, ns)"
    by (cases "findFromTable m (joinTableNamesOf sq) (tables sq) (nodes st)")
  have nf: "truthy f \<Longrightarrow> noArrow (the f)"
    using findFromTable_noArrow [OF assms(2) ft] .
  have step: "\<And>j s. handledOk sq s \<Longrightarrow> handledOk sq (joinStep m (joinTableNamesOf sq) f sq j s)"
    using joinStep_ok [OF _ assms(2) nf] by (simp add: handledOk_def)
  have "handledOk sq (st\<lparr>handledDeps := [], nodes := ns\<rparr>)"
    using assms(1) by (simp add: handledOk_def)
  then have "handledOk sq (fold (joinStep m (joinTableNamesOf sq) f sq) (joins sq)
      (st\<lparr>handledDeps := [], nodes := ns\<rparr>))"
    by (rule fold_preserves [rotated]) (rule step)
  then show ?thesis using ft by (simp add: joinPhase_def)
qed

lemma handledOk_unionPhase:
  assumes "handledOk sq st"
  shows "handledOk sq (unionPhase u sq st)"
proof (cases "map_of u (sqId sq)")
  case None
  with assms show ?thesis by (simp add: unionPhase_def)
next
  case (Some srcs)
  have "handledOk sq (fold (unionPhysicalStep sq) srcs st)"
    by (rule fold_preserves) (use assms unionPhysicalStep_ok in \<open>simp_all add: handledOk_def\<close>)
  with Some show ?thesis by (simp add: unionPhase_def)
qed

lemma unionPhase_keep: "hasIncoming t st \<Longrightarrow> hasIncoming t (unionPhase u sq st)"
  by (simp add: unionPhase_def fold_preserves unionPhysicalStep_keep split: option.splits)

lemma handledOk_dependsOnStep:
  assumes "handledOk sq st" and "mapOk m"
  shows "handledOk sq (dependsOnStep m u sq d st)"
proof -
  have g: "graphOk (dependsOnStep m u sq d st)"
    using assms by (simp add: handledOk_def dependsOnStep_ok)
  have "handledDeps (dependsOnStep m u sq d st) \<noteq> [] \<longrightarrow> hasIncoming (sqId sq) (dependsOnStep m u sq d st)"
    using assms
    by (simp add: handledOk_def dependsOnStep_def Let_def hasIncoming_addEdge noArrow_lookup)
  with g show ?thesis by (simp add: handledOk_def)
qed

lemma tableStep_first:
  assumes "handledOk sq st" and "mapOk m" and "sqId sq \<notin> snd ` set m"
  shows "hasIncoming (sqId sq) (tableStep m sq t st)"
proof -
  define handled where "handled = list_ex (\<lambda>h. let mh = getMatchName h
      in mh = getMatchName (trName t) \<or> mh = getMatchName (tableName t)) (handledDeps st)"
  define dep where "dep = lookupNodeId (\<lambda>mk. mk = getMatchName (trName t) \<or> mk = getMatchName (tableName t)) m"
  show ?thesis
  proof (cases handled)
    case True
    then have "handledDeps st \<noteq> []" by (auto simp: handled_def)
    with assms(1) have "hasIncoming (sqId sq) st" by (simp add: handledOk_def)
    then show ?thesis by (rule tableStep_keep)
  next
    case False
    note nh = this
    show ?thesis
    proof (cases "truthy dep")
      case True
      then have v: "the dep \<in> snd ` set m" and na: "noArrow (the dep)"
        using truthy_lookup noArrow_lookup [OF assms(2)] by (simp_all add: dep_def)
      have ne: "the dep \<noteq> sqId sq"
      proof
        assume "the dep = sqId sq"
        with v assms(3) show False by simp
      qed
      have g: "graphOk st" using assms(1) by (simp add: handledOk_def)
      have "hasIncoming (sqId sq)
          (if edgeKey (the dep) (sqId sq) \<notin> set (addedEdges st)
           then addEdge (the dep) (sqId sq) None st else st)"
        using g na hasIncoming_addEdge hasIncoming_of_key by auto
      then show ?thesis
        using nh True ne
        by (simp add: tableStep_def Let_def handled_def [symmetric, unfolded Let_def] dep_def [symmetric])
    next
      case False
      have g: "graphOk st" using assms(1) by (simp add: handledOk_def)
      obtain sid ns where es: "ensureSourceNode (trName t) (trAlias t) (nodes st) = (sid, ns)"
        by (cases "ensureSourceNode (trName t) (trAlias t) (nodes st)")
      have "noArrow sid" using noArrow_ensureSourceNode [of "trName t" "trAlias t" "nodes st"] es by simp
      then have "hasIncoming (sqId sq) (addEdge sid (sqId sq) None (st\<lparr>nodes := ns\<rparr>))"
        using g by (simp add: hasIncoming_addEdge)
      then show ?thesis
        using nh False es
        by (simp add: tableStep_def Let_def handled_def [symmetric, unfolded Let_def] dep_def [symmetric])
    qed
  qed
qed

lemma processQuery_ok:
  assumes "graphOk st" and "mapOk m"
  shows "graphOk (processQuery m u p sq st)"
proof -
  have "graphOk (joinPhase m sq (st\<lparr>handledDeps := []\<rparr>))"
    using assms by (simp add: findFromTable_joinSteps_ok)
  then have "graphOk (unionPhase p sq (joinPhase m sq (st\<lparr>handledDeps := []\<rparr>)))"
    by (simp add: unionPhase_def fold_preserves unionPhysicalStep_ok(1) split: option.splits)
  then have "graphOk (fold (dependsOnStep m u sq) (dependsOn sq)
      (unionPhase p sq (joinPhase m sq (st\<lparr>handledDeps := []\<rparr>))))"
    by (rule fold_preserves [rotated]) (simp add: dependsOnStep_ok assms(2))
  then have "graphOk (fold (tableStep m sq) (tables sq) (fold (dependsOnStep m u sq) (dependsOn sq)
      (unionPhase p sq (joinPhase m sq (st\<lparr>handledDeps := []\<rparr>)))))"
    by (rule fold_preserves [rotated]) (simp add: tableStep_ok assms(2))
  then show ?thesis by (simp add: processQuery_def rescue_ok assms(2))
qed

lemma processQuery_keep: "hasIncoming t st \<Longrightarrow> hasIncoming t (processQuery m u p sq st)"
  by (simp add: processQuery_def rescue_keep fold_preserves tableStep_keep dependsOnStep_keep
      unionPhase_keep joinPhase_keep)

lemma processQuery_incoming:
  assumes "graphOk st" and "mapOk m" and "tables sq \<noteq> []"
    and "isCTE sq \<or> isTempTable sq \<or> isSubQuery sq \<or> sqId sq \<notin> snd ` set m"
  shows "hasIncoming (sqId sq) (processQuery m u p sq st)"
proof -
  define st3 where "st3 = fold (dependsOnStep m u sq) (dependsOn sq)
      (unionPhase p sq (joinPhase m sq (st\<lparr>handledDeps := []\<rparr>)))"
  define st4 where "st4 = fold (tableStep m sq) (tables sq) st3"
  have pq: "processQuery m u p sq st = rescue m sq st4"
    by (simp add: processQuery_def st4_def st3_def)
  have h3: "handledOk sq st3"
    unfolding st3_def
    by (rule fold_preserves)
       (use assms(1,2) handledOk_dependsOnStep handledOk_unionPhase handledOk_joinPhase in simp_all)
  have g4: "graphOk st4"
    unfolding st4_def
    by (rule fold_preserves) (use h3 assms(2) tableStep_ok in \<open>simp_all add: handledOk_def\<close>)
  show ?thesis
  proof (cases "isCTE sq \<or> isTempTable sq \<or> isSubQuery sq")
    case True
    then show ?thesis using rescue_flagged [OF g4 assms(2,3)] pq by simp
  next
    case False
    with assms(4) have nk: "sqId sq \<notin> snd ` set m" by simp
    from assms(3) obtain t ts where ts: "tables sq = t # ts" by (cases "tables sq") auto
    have "hasIncoming (sqId sq) (tableStep m sq t st3)"
      using h3 assms(2) nk by (rule tableStep_first)
    then have "hasIncoming (sqId sq) (fold (tableStep m sq) ts (tableStep m sq t st3))"
      by (rule fold_preserves [rotated]) (rule tableStep_keep)
    then have "hasIncoming (sqId sq) st4" by (simp add: st4_def ts)
    then show ?thesis using pq rescue_keep by simp
  qed
qed

lemma processAll_incoming:
  assumes "mapOk m" and "tables sq \<noteq> []"
    and "isCTE sq \<or> isTempTable sq \<or> isSubQuery sq \<or> sqId sq \<notin> snd ` set m"
  shows "graphOk st \<Longrightarrow> sq \<in> set qs \<Longrightarrow> hasIncoming (sqId sq) (fold (processQuery m u p) qs st)"
proof (induction qs arbitrary: st)
  case Nil
  then show ?case by simp
next
  case (Cons q qs)
  show ?case
  proof (cases "sq = q")
    case True
    have "hasIncoming (sqId sq) (processQuery m u p q st)"
      using processQuery_incoming [OF Cons.prems(1) assms] True by simp
    then have "hasIncoming (sqId sq) (fold (processQuery m u p) qs (processQuery m u p q st))"
      by (rule fold_preserves [rotated]) (rule processQuery_keep)
    then show ?thesis by simp
  next
    case False
    with Cons.prems have "sq \<in> set qs" by simp
    moreover have "graphOk (processQuery m u p q st)"
      using Cons.prems(1) assms(1) by (rule processQuery_ok)
    ultimately show ?thesis using Cons.IH by simp
  qed
qed

definition valuesIn :: "(string \<times> string) list \<Rightarrow> string set \<Rightarrow> bool" where
  "valuesIn m S = (\<forall>kv\<in>set m. snd kv \<in> S)"

lemma mapSet_mem: "kv \<in> set (mapSet k v m) \<Longrightarrow> kv = (k, v) \<or> kv \<in> set m"
  by (induction m) (auto split: if_splits)

lemma valuesIn_mapSet: "valuesIn m S \<Longrightarrow> v \<in> S \<Longrightarrow> valuesIn (mapSet k v m) S"
  unfolding valuesIn_def using mapSet_mem [of _ k v m] by fastforce

lemma valuesIn_addCteNode:
  "valuesIn (fst acc) S \<Longrightarrow> sqId ` set cs \<subseteq> S \<Longrightarrow> valuesIn (fst (fold addCteNode cs acc)) S"
proof (induction cs arbitrary: acc)
  case Nil
  then show ?case by simp
next
  case (Cons c cs)
  obtain m ns where acc: "acc = (m, ns)" by (cases acc)
  have "valuesIn (fst (addCteNode c acc)) S"
    using Cons.prems by (simp add: addCteNode_def acc valuesIn_mapSet)
  with Cons.IH [of "addCteNode c acc"] Cons.prems(2) show ?case by simp
qed

lemma valuesIn_addSubQueryNode:
  "valuesIn (fst acc) S \<Longrightarrow> sqId ` set qs \<subseteq> S \<Longrightarrow> valuesIn (fst (fold addSubQueryNode qs acc)) S"
proof (induction qs arbitrary: acc)
  case Nil
  then show ?case by simp
next
  case (Cons q qs)
  obtain m ns where acc: "acc = (m, ns)" by (cases acc)
  have "valuesIn (fst (addSubQueryNode q acc)) S"
    using Cons.prems by (simp add: addSubQueryNode_def acc valuesIn_mapSet)
  with Cons.IH [of "addSubQueryNode q acc"] Cons.prems(2) show ?case by simp
qed

lemma buildNodes_values:
  "valuesIn (fst (buildNodes parsed)) (sqId ` (set (ctes parsed) \<union> set (subQueries parsed)))"
proof -
  let ?S = "sqId ` (set (ctes parsed) \<union> set (subQueries parsed))"
  have "valuesIn (fst (fold addCteNode (ctes parsed) ([], []))) ?S"
    by (rule valuesIn_addCteNode) (simp_all add: valuesIn_def image_Un)
  then have "valuesIn (fst (fold addSubQueryNode (subQueries parsed) (fold addCteNode (ctes parsed) ([], [])))) ?S"
    by (rule valuesIn_addSubQueryNode) (simp add: image_Un)
  moreover have "fst (buildNodes parsed) =
      fst (fold addSubQueryNode (subQueries parsed) (fold addCteNode (ctes parsed) ([], [])))"
    by (simp add: buildNodes_def split: prod.splits)
  ultimately show ?thesis by simp
qed

lemma restyleFirst_keep:
  "\<exists>e\<in>set es. edgeTarget e = t \<Longrightarrow> \<exists>e\<in>set (restyleFirst p es). edgeTarget e = t"
  by (induction es) auto

definition knownTable :: "string \<Rightarrow> TableRef" where
  "knownTable n = \<lparr>trName = n, schema = [], tableName = n, trAlias = n, trType = None\<rparr>"

definition physicalTable :: "string \<Rightarrow> TableRef" where
  "physicalTable n = \<lparr>trName = n, schema = [], tableName = n, trAlias = n, trType = Some Dimension\<rparr>"

definition cteUnit :: "string \<Rightarrow> string \<Rightarrow> TableRef list \<Rightarrow> string list \<Rightarrow> SubQuery" where
  "cteUnit i n ts ds = (emptySubQuery i n)\<lparr>isCTE := True, tables := ts, dependsOn := ds\<rparr>"

text \<open>
  Where the rescue reaches its goal. Let no id of a CTE, temp table or subquery of the
  document contain \<open>->\<close>, so that no two edges share a key. Then every unit of
  \<open>allQueries\<close> whose table list is not empty, and that is a CTE, temp table or subquery
  or whose id is not the id of one, has an edge whose target is the id of the unit. This
  bounds the defect shown below; it is no part of the claim.
\<close>

lemma incoming_without_key_collision:
  assumes "sq \<in> set (allQueries parsed)" and "tables sq \<noteq> []"
    and "\<forall>q\<in>set (ctes parsed) \<union> set (subQueries parsed). noArrow (sqId q)"
    and "isCTE sq \<or> isTempTable sq \<or> isSubQuery sq
         \<or> sqId sq \<notin> sqId ` (set (ctes parsed) \<union> set (subQueries parsed))"
  shows "\<exists>e\<in>set (snd (buildFlowElements parsed)). edgeTarget e = sqId sq"
proof -
  obtain m ns where bn: "buildNodes parsed = (m, ns)" by (cases "buildNodes parsed")
  obtain u p where bu: "buildUnionSources m parsed = (u, p)" by (cases "buildUnionSources m parsed")
  have vals: "valuesIn m (sqId ` (set (ctes parsed) \<union> set (subQueries parsed)))"
    using buildNodes_values [of parsed] bn by simp
  have sub: "snd ` set m \<subseteq> sqId ` (set (ctes parsed) \<union> set (subQueries parsed))"
    using vals unfolding valuesIn_def by auto
  have mo: "mapOk m"
    unfolding mapOk_def
  proof
    fix v assume "v \<in> snd ` set m"
    with sub have "v \<in> sqId ` (set (ctes parsed) \<union> set (subQueries parsed))" ..
    then obtain q where "q \<in> set (ctes parsed) \<union> set (subQueries parsed)" "v = sqId q" ..
    with assms(3) show "noArrow v" by simp
  qed
  have c: "isCTE sq \<or> isTempTable sq \<or> isSubQuery sq \<or> sqId sq \<notin> snd ` set m"
  proof (cases "sqId sq \<in> snd ` set m")
    case True
    with sub have "sqId sq \<in> sqId ` (set (ctes parsed) \<union> set (subQueries parsed))" ..
    with assms(4) show ?thesis by blast
  next
    case False
    then show ?thesis by simp
  qed
  define st0 where "st0 = \<lparr>nodes = ns, edges = [], addedEdges = [], joinNodeCounter = 0, handledDeps = []\<rparr>"
  define st1 where "st1 = fold (processQuery m u p) (allQueries parsed) st0"
  have "graphOk st0" by (simp add: st0_def graphOk_def edgesTracked_def)
  then have "hasIncoming (sqId sq) st1"
    unfolding st1_def using assms(1) by (rule processAll_incoming [OF mo assms(2) c])
  then have "hasIncoming (sqId sq) (addEdge (sqId (mainQuery parsed)) outputId None st1)"
    by (rule hasIncoming_keep_addEdge)
  then have "\<exists>e\<in>set (restyleFirst (\<lambda>e. edgeSource e = sqId (mainQuery parsed) \<and> edgeTarget e = outputId)
        (edges (addEdge (sqId (mainQuery parsed)) outputId None st1))). edgeTarget e = sqId sq"
    unfolding hasIncoming_def by (rule restyleFirst_keep)
  moreover have "snd (buildFlowElements parsed) =
      restyleFirst (\<lambda>e. edgeSource e = sqId (mainQuery parsed) \<and> edgeTarget e = outputId)
        (edges (addEdge (sqId (mainQuery parsed)) outputId None st1))"
    by (simp add: buildFlowElements_def bn bu connectOutput_def Let_def st1_def st0_def)
  ultimately show ?thesis by simp
qed

definition mainOfPlain :: SubQuery where
  "mainOfPlain = (emptySubQuery ''main'' ''Final'')\<lparr>tables := [knownTable ''c''], dependsOn := [''c'']\<rparr>"

definition plainDocument :: ParsedSQL where
  "plainDocument =
     \<lparr>ctes = [cteUnit ''cte_0'' ''c'' [physicalTable ''t1''] []], mainQuery = mainOfPlain, subQueries = [],
      allQueries = [cteUnit ''cte_0'' ''c'' [physicalTable ''t1''] [], mainOfPlain]\<rparr>"

lemma incoming_without_key_collision_example:
  "mainOfPlain \<in> set (allQueries plainDocument) \<and> tables mainOfPlain \<noteq> []
   \<and> list_all (\<lambda>q. noArrow (sqId q)) (ctes plainDocument @ subQueries plainDocument)
   \<and> sqId mainOfPlain \<notin> sqId ` (set (ctes plainDocument) \<union> set (subQueries plainDocument))
   \<and> (\<exists>e\<in>set (snd (buildFlowElements plainDocument)). edgeTarget e = sqId mainOfPlain)"
proof -
  have h1: "mainOfPlain \<in> set (allQueries plainDocument)"
    by (simp add: plainDocument_def)
  have h2: "tables mainOfPlain \<noteq> []"
    by (simp add: mainOfPlain_def)
  have h3: "\<forall>q\<in>set (ctes plainDocument) \<union> set (subQueries plainDocument). noArrow (sqId q)"
    by (simp add: plainDocument_def cteUnit_def emptySubQuery_def noArrow_def startsWith_def)
  have h4: "sqId mainOfPlain \<notin> sqId ` (set (ctes plainDocument) \<union> set (subQueries plainDocument))"
    by (simp add: plainDocument_def cteUnit_def emptySubQuery_def mainOfPlain_def)
  from incoming_without_key_collision [OF h1 h2 h3] h4
  have "\<exists>e\<in>set (snd (buildFlowElements plainDocument)). edgeTarget e = sqId mainOfPlain"
    by blast
  moreover from h3 have "list_all (\<lambda>q. noArrow (sqId q)) (ctes plainDocument @ subQueries plainDocument)"
    by (simp add: list_all_iff)
  ultimately show ?thesis using h1 h2 h4 by blast
qed

text \<open>
  Two documents on which a unit with tables has no incoming edge. \<open>collidingKeys\<close> is the
  smallest one. \<open>orphanDocument\<close> is the document that the parser returns for the script
  \<^verbatim>\<open>
  CREATE TABLE x AS SELECT a FROM t0;
  CREATE TABLE node_x->temp_node_y AS SELECT a FROM t1 WHERE a > 1 UNION ALL SELECT a FROM t2;
  CREATE TABLE y_union_0->temp_node_node_x->temp_node_y AS SELECT a FROM x;
  SELECT * FROM x
  \<close>
  (a temp table name is any run of characters other than white space and \<open>(\<close>): the second
  temp table is a complex union, whose branches get the ids
  \<open>temp_node_x->temp_node_y_union_0\<close> and \<open>..._union_1\<close>.
\<close>

definition unitZ :: SubQuery where
  "unitZ = cteUnit ''z'' ''u'' [knownTable ''w''] [''w'']"

definition collidingKeys :: ParsedSQL where
  "collidingKeys =
     \<lparr>ctes = [cteUnit ''x'' ''x'' [] [], cteUnit ''x->y'' ''w'' [] [],
              cteUnit ''y->z'' ''v'' [knownTable ''x''] [''x''], unitZ],
      mainQuery = emptySubQuery ''main'' ''Final'',
      subQueries = [],
      allQueries = [cteUnit ''x'' ''x'' [] [], cteUnit ''x->y'' ''w'' [] [],
                    cteUnit ''y->z'' ''v'' [knownTable ''x''] [''x''], unitZ,
                    emptySubQuery ''main'' ''Final'']\<rparr>"

definition fieldOf :: "string \<Rightarrow> string \<Rightarrow> FieldInfo" where
  "fieldOf e a =
     \<lparr>expression = e, fiAlias = a, originalName = e, displayText = e, transformation = ''original field''\<rparr>"

definition selectUnit :: "string \<Rightarrow> string \<Rightarrow> TableRef list \<Rightarrow> FieldInfo list \<Rightarrow> string list \<Rightarrow> SubQuery" where
  "selectUnit i n ts fs ds = (emptySubQuery i n)\<lparr>tables := ts, sqFields := fs, dependsOn := ds\<rparr>"

definition tempX :: SubQuery where
  "tempX = (selectUnit ''temp_node_x'' ''x'' [physicalTable ''t0''] [fieldOf ''a'' ''a''] [])\<lparr>isTempTable := True\<rparr>"

definition tempUnion :: SubQuery where
  "tempUnion =
     (emptySubQuery ''temp_node_node_x->temp_node_y'' ''node_x->temp_node_y'')
       \<lparr>isTempTable := True,
        dependsOn := [''temp_node_x->temp_node_y_union_0'', ''temp_node_x->temp_node_y_union_1''],
        unionInfo := Some \<lparr>unionType = UNION_ALL,
                           sources = [''temp_node_x->temp_node_y_union_0'',
                                      ''temp_node_x->temp_node_y_union_1'']\<rparr>\<rparr>"

definition tempOrphan :: SubQuery where
  "tempOrphan =
     (selectUnit ''temp_node_y_union_0->temp_node_node_x->temp_node_y''
        ''y_union_0->temp_node_node_x->temp_node_y'' [knownTable ''x''] [fieldOf ''a'' ''a''] [''x''])
       \<lparr>isTempTable := True\<rparr>"

definition branch0 :: SubQuery where
  "branch0 =
     (selectUnit ''temp_node_x->temp_node_y_union_0'' ''node_x->temp_node_y (branch 1)''
        [physicalTable ''t1''] [fieldOf ''a'' ''a''] [])
       \<lparr>isSubQuery := True, filters := [\<lparr>clause = ''WHERE'', filterCondition = ''a > 1''\<rparr>]\<rparr>"

definition branch1 :: SubQuery where
  "branch1 =
     (selectUnit ''temp_node_x->temp_node_y_union_1'' ''node_x->temp_node_y (branch 2)''
        [physicalTable ''t2''] [fieldOf ''a'' ''a''] [])
       \<lparr>isSubQuery := True\<rparr>"

definition mainOfOrphan :: SubQuery where
  "mainOfOrphan = selectUnit ''main'' ''final query'' [knownTable ''x''] [fieldOf ''*'' []] [''x'']"

definition orphanDocument :: ParsedSQL where
  "orphanDocument =
     \<lparr>ctes = [tempX, tempUnion, tempOrphan], mainQuery = mainOfOrphan,
      subQueries = [branch0, branch1],
      allQueries = [tempX, tempUnion, tempOrphan, branch0, branch1, mainOfOrphan]\<rparr>"

text \<open>
  Claim C3 fails, by a defect of the code. The assembler means every temp table, CTE and
  subquery with tables to have an incoming edge: that is what its rescue pass is for. But
  it takes two edges for the same edge when their keys \<open>source->target\<close> are the same
  text, and ids may contain \<open>->\<close>. In \<open>collidingKeys\<close> the CTE \<open>z\<close> reads the unit \<open>x->y\<close>;
  the key \<open>x->y->z\<close> of that edge is already there, as the key of the edge from \<open>x\<close> to
  the unit \<open>y->z\<close>, so neither the ordinary pass nor the rescue adds the edge. In
  \<open>orphanDocument\<close>, whose ids are pairwise distinct, the third temp table reads the temp
  table \<open>x\<close>; the key of that edge is the key of the edge from the first union branch to
  the second temp table, and no edge gets the third temp table as its target.
\<close>

theorem buildFlowElements_orphan:
  "unitZ \<in> set (allQueries collidingKeys) \<and> tables unitZ \<noteq> [] \<and> isCTE unitZ \<and> sqId unitZ = ''z''
   \<and> map edgeTarget (snd (buildFlowElements collidingKeys)) = [''y->z'', ''output'']
   \<and> tempOrphan \<in> set (allQueries orphanDocument) \<and> tables tempOrphan \<noteq> [] \<and> isTempTable tempOrphan
   \<and> distinct (map sqId (allQueries orphanDocument))
   \<and> edgeKey ''temp_node_x'' (sqId tempOrphan) = edgeKey (sqId branch0) (sqId tempUnion)
   \<and> map (\<lambda>e. (edgeSource e, edgeTarget e)) (snd (buildFlowElements orphanDocument))
       = [(''source_t0'', ''temp_node_x''),
          (''temp_node_x->temp_node_y_union_0'', ''temp_node_node_x->temp_node_y''),
          (''temp_node_x->temp_node_y_union_1'', ''temp_node_node_x->temp_node_y''),
          (''source_t1'', ''temp_node_x->temp_node_y_union_0''),
          (''source_t2'', ''temp_node_x->temp_node_y_union_1''),
          (''temp_node_x'', ''main''), (''main'', ''output'')]"
  by code_simp

end
